theory Spec2Isabelle
  imports Main "HOL-Library.Word"
begin

section \<open>Package errs\<close>

text \<open>
  A Go \<open>error\<close> is an interface value that may be nil: it is modelled as
  \<open>error option\<close>, where the only thing the package observes of an error is the
  string its \<open>Error()\<close> method returns. \<open>errors.New\<close> is the constructor
  \<open>errorString\<close>. A run-time panic (here: calling \<open>Error()\<close> on a nil error)
  is the outcome \<open>Panic\<close>.
\<close>

type_synonym ErrorMessage = string

datatype error = errorString (Error: string)

datatype 'a outcome = Return 'a | Panic

definition errs_New :: "ErrorMessage \<Rightarrow> error option" where
  "errs_New userMessage =
     (if userMessage = [] then None else Some (errorString userMessage))"

definition errs_Build :: "error option \<Rightarrow> ErrorMessage \<Rightarrow> error option outcome" where
  "errs_Build err userMessage =
     (if userMessage = [] then Return err
      else (case err of
              None \<Rightarrow> Panic
            | Some e \<Rightarrow> Return (Some (errorString (Error e @ ''; '' @ userMessage)))))"

section \<open>Cache keys, values and the Cacher interface\<close>

text \<open>A key wraps a string; the pool of \<open>NewCacheKey\<close> only recycles key objects.\<close>

datatype CacheKey = CacheKey (AsString: string)

definition NewCacheKey :: "string \<Rightarrow> CacheKey" where
  "NewCacheKey k = CacheKey k"

type_synonym buffer = string
type_synonym time = int
datatype CacheStatus = CacheStatusSuccess | CacheStatusFailure

definition NoWorkableCacheFound :: ErrorMessage where
  "NoWorkableCacheFound = ''No workable cache found''"
definition MaxCacheLevelExceeded :: ErrorMessage where
  "MaxCacheLevelExceeded = ''Max cache level exceeded''"
definition MaxValLenExceeded :: ErrorMessage where
  "MaxValLenExceeded = ''Max val len exceeded''"
definition InvalidReadPattern :: ErrorMessage where
  "InvalidReadPattern = ''Invalid read pattern''"
definition InvalidWritePattern :: ErrorMessage where
  "InvalidWritePattern = ''Invalid write pattern''"
definition GetError :: ErrorMessage where
  "GetError = ''Get error''"
definition PutError :: ErrorMessage where
  "PutError = ''Put error''"
definition DelError :: ErrorMessage where
  "DelError = ''Del error''"
definition IsPresentError :: ErrorMessage where
  "IsPresentError = ''IsPresent error''"

type_synonym ReadPattern = "8 word"
type_synonym WritePattern = "8 word"

definition ReadThrough :: ReadPattern where "ReadThrough = 0"
definition CacheAside :: ReadPattern where "CacheAside = 1"
definition endR :: ReadPattern where "endR = 2"

definition WriteThrough :: WritePattern where "WriteThrough = 0"
definition WriteAround :: WritePattern where "WriteAround = 1"
definition WriteBack :: WritePattern where "WriteBack = 2"
definition endW :: WritePattern where "endW = 3"

definition maxCaches :: "8 word" where "maxCaches = 5"

text \<open>
  A backend is a value of the interface \<open>Cacher\<close>: five methods. What a backend
  stores lives outside the orchestrator, so each method is a transformer of an
  external world \<open>'w\<close> that all backends share (two levels may be the same
  object, or share storage). The orchestrator calls a backend only after its own
  nil-key guard, so the methods take the key itself.
\<close>

record 'w Cacher =
  Get :: "CacheKey \<Rightarrow> 'w \<Rightarrow> (buffer option \<times> time \<times> error option) \<times> 'w"
  Put :: "CacheKey \<Rightarrow> buffer option \<Rightarrow> time \<Rightarrow> 'w \<Rightarrow> (CacheStatus \<times> error option) \<times> 'w"
  Del :: "CacheKey \<Rightarrow> 'w \<Rightarrow> (CacheStatus \<times> error option) \<times> 'w"
  IsPresent :: "CacheKey \<Rightarrow> 'w \<Rightarrow> (CacheStatus \<times> error option) \<times> 'w"
  Flush :: "'w \<Rightarrow> error option \<times> 'w"

section \<open>The level chain\<close>

text \<open>
  \<open>lCache\<close> is a node of the doubly linked list. A \<open>*lCache\<close> is an index into
  the arena \<open>nodes\<close> of the orchestrator (\<open>None\<close> is nil).
\<close>

record 'w lCache =
  cur :: "'w Cacher"
  prev :: "nat option"
  "next" :: "nat option"

record 'w cacher =
  nodes :: "'w lCache list"
  l1Cache :: "nat option"
  lnCache :: "nat option"
  numCaches :: "8 word"
  readPattern :: ReadPattern
  writePattern :: WritePattern
  maxValSize :: int

definition validate :: "8 word \<Rightarrow> ReadPattern \<Rightarrow> WritePattern \<Rightarrow> error option" where
  "validate n rp wp =
     (if n = 0 then errs_New NoWorkableCacheFound
      else if n > maxCaches then errs_New MaxCacheLevelExceeded
      else if rp \<ge> endR then errs_New InvalidReadPattern
      else if wp \<ge> endW then errs_New InvalidWritePattern
      else None)"


text \<open>
  \<open>NewMultiLevelCache\<close> allocates one node per backend and wires the links:
  the new node points back to \<open>eCache\<close>, and \<open>eCache.next\<close> is set to the
  new node. \<open>ci\<close> and \<open>numCaches\<close> are \<open>uint8\<close>; \<open>numCaches\<close> is the
  number of backends converted to \<open>uint8\<close>, so \<open>caches[ci]\<close> is in range
  whenever \<open>ci < numCaches\<close> (\<open>caches_index_in_range\<close>), and \<open>caches[0]\<close> is
  read only after the count has been found not to be 0.
\<close>

function buildChain ::
  "'w Cacher list \<Rightarrow> 8 word \<Rightarrow> 8 word \<Rightarrow> nat \<Rightarrow> 'w lCache list \<Rightarrow> nat \<times> 'w lCache list" where
  "buildChain caches n ci eCache h =
     (if ci < n then
        let new = length h;
            h1 = h @ [\<lparr>cur = caches ! unat ci, prev = Some eCache, next = None\<rparr>];
            h2 = h1[eCache := (h1 ! eCache)\<lparr>next := Some new\<rparr>]
        in buildChain caches n (ci + 1) new h2
      else (eCache, h))"
  by pat_completeness auto
termination
proof (relation "measure (\<lambda>(caches, n, ci, eCache, h). unat n - unat ci)")
  show "wf (measure (\<lambda>(caches, n, ci, eCache, h). unat n - unat ci))" by simp
next
  fix caches :: "'w Cacher list" and n ci :: "8 word" and eCache :: nat
    and h :: "'w lCache list" and x xa xb
  assume lt: "ci < n"
  have a: "unat ci < unat n" using lt by (simp add: word_less_nat_alt)
  have b: "unat n < 256" using unsigned_less [of n, where ?'a = nat] by simp
  have "unat (ci + 1) = (unat ci + 1) mod 256" by (simp add: unat_word_ariths)
  with a b have "unat (ci + 1) = unat ci + 1" by simp
  with a show "((caches, n, ci + 1, xb, xa), (caches, n, ci, eCache, h))
        \<in> measure (\<lambda>(caches, n, ci, eCache, h). unat n - unat ci)"
    by simp
qed

definition NewMultiLevelCache ::
  "ReadPattern \<Rightarrow> WritePattern \<Rightarrow> int \<Rightarrow> 'w Cacher list \<Rightarrow> 'w cacher option \<times> error option" where
  "NewMultiLevelCache rp wp mvs caches =
     (let n = (word_of_nat (length caches) :: 8 word) in
      case validate n rp wp of
        Some err \<Rightarrow> (None, Some err)
      | None \<Rightarrow>
          (let h0 = [\<lparr>cur = caches ! 0, prev = None, next = None\<rparr>];
               sCache = 0;
               (eCache, h) = buildChain caches n 1 sCache h0
           in (Some \<lparr>nodes = h, l1Cache = Some sCache, lnCache = Some eCache,
                     numCaches = n, readPattern = rp, writePattern = wp,
                     maxValSize = mvs\<rparr>, None)))"

text \<open>
  The repository holds a second revision of \<open>NewMultiLevelCache\<close>: it checks the
  count inline, does not look at the two patterns, and counts the backends with
  an \<open>int\<close>.
\<close>

function buildChain_int ::
  "'w Cacher list \<Rightarrow> 8 word \<Rightarrow> int \<Rightarrow> nat \<Rightarrow> 'w lCache list \<Rightarrow> nat \<times> 'w lCache list" where
  "buildChain_int caches n ci eCache h =
     (if ci < uint n then
        let new = length h;
            h1 = h @ [\<lparr>cur = caches ! nat ci, prev = Some eCache, next = None\<rparr>];
            h2 = h1[eCache := (h1 ! eCache)\<lparr>next := Some new\<rparr>]
        in buildChain_int caches n (ci + 1) new h2
      else (eCache, h))"
  by pat_completeness auto
termination
  by (relation "measure (\<lambda>(caches, n, ci, eCache, h). nat (uint n - ci))") auto

declare buildChain_int.simps [simp del]

definition NewMultiLevelCache_inline ::
  "ReadPattern \<Rightarrow> WritePattern \<Rightarrow> int \<Rightarrow> 'w Cacher list \<Rightarrow> 'w cacher option \<times> error option" where
  "NewMultiLevelCache_inline rp wp mvs caches =
     (let n = (word_of_nat (length caches) :: 8 word) in
      if n = 0 then (None, errs_New NoWorkableCacheFound)
      else if n > maxCaches then (None, errs_New MaxCacheLevelExceeded)
      else
        (let h0 = [\<lparr>cur = caches ! 0, prev = None, next = None\<rparr>];
             sCache = 0;
             (eCache, h) = buildChain_int caches n 1 sCache h0
         in (Some \<lparr>nodes = h, l1Cache = Some sCache, lnCache = Some eCache,
                   numCaches = n, readPattern = rp, writePattern = wp,
                   maxValSize = mvs\<rparr>, None)))"

section \<open>Calling a level\<close>

text \<open>
  The state threaded through an operation: the external world of the backends,
  the calls the operation itself has made so far (node address and method, in
  order), and the goroutines it has started. A goroutine is recorded with the
  variables its closure captures; it is not run by the operation that starts it.
\<close>

datatype call =
    GetCall CacheKey
  | PutCall CacheKey "buffer option" time
  | DelCall CacheKey
  | IsPresentCall CacheKey

datatype task =
    BackfillTask nat CacheKey buffer time
  | WriteBackTask nat nat CacheKey "buffer option" time
  | FlushTask nat

record 'w state =
  world :: 'w
  calls :: "(nat \<times> call) list"
  spawned :: "task list"

definition callGet ::
  "nat \<Rightarrow> 'w Cacher \<Rightarrow> CacheKey \<Rightarrow> 'w state
     \<Rightarrow> (buffer option \<times> time \<times> error option) \<times> 'w state" where
  "callGet a c k s =
     (case Get c k (world s) of
        (r, w) \<Rightarrow> (r, s\<lparr>world := w, calls := calls s @ [(a, GetCall k)]\<rparr>))"

definition callPut ::
  "nat \<Rightarrow> 'w Cacher \<Rightarrow> CacheKey \<Rightarrow> buffer option \<Rightarrow> time \<Rightarrow> 'w state
     \<Rightarrow> (CacheStatus \<times> error option) \<times> 'w state" where
  "callPut a c k v t s =
     (case Put c k v t (world s) of
        (r, w) \<Rightarrow> (r, s\<lparr>world := w, calls := calls s @ [(a, PutCall k v t)]\<rparr>))"

definition callDel ::
  "nat \<Rightarrow> 'w Cacher \<Rightarrow> CacheKey \<Rightarrow> 'w state \<Rightarrow> (CacheStatus \<times> error option) \<times> 'w state" where
  "callDel a c k s =
     (case Del c k (world s) of
        (r, w) \<Rightarrow> (r, s\<lparr>world := w, calls := calls s @ [(a, DelCall k)]\<rparr>))"

definition callIsPresent ::
  "nat \<Rightarrow> 'w Cacher \<Rightarrow> CacheKey \<Rightarrow> 'w state \<Rightarrow> (CacheStatus \<times> error option) \<times> 'w state" where
  "callIsPresent a c k s =
     (case IsPresent c k (world s) of
        (r, w) \<Rightarrow> (r, s\<lparr>world := w, calls := calls s @ [(a, IsPresentCall k)]\<rparr>))"

definition go :: "task \<Rightarrow> 'w state \<Rightarrow> 'w state" where
  "go t s = s\<lparr>spawned := spawned s @ [t]\<rparr>"

text \<open>Following a \<open>*lCache\<close>: an address outside the arena has no node.\<close>

definition node_at :: "'w lCache list \<Rightarrow> nat \<Rightarrow> 'w lCache option" where
  "node_at h a = (if a < length h then Some (h ! a) else None)"

text \<open>\<open>return CacheStatusFailure, errs.Build(err, msg)\<close>: a panic in \<open>Build\<close> is a
  panic of the operation.\<close>

definition returnFailure ::
  "error option outcome \<Rightarrow> (CacheStatus \<times> error option) outcome" where
  "returnFailure b = (case b of Panic \<Rightarrow> Panic | Return e \<Rightarrow> Return (CacheStatusFailure, e))"

section \<open>Get\<close>

text \<open>
  The loops follow the links of the arena; a loop that does not return has the
  value \<open>None\<close>, as has one that follows an address with no node.
  \<open>now\<close> is what \<open>time.Now().UTC()\<close> returns.
\<close>

partial_function (option) backfill ::
  "'w lCache list \<Rightarrow> CacheKey \<Rightarrow> buffer \<Rightarrow> time \<Rightarrow> time \<Rightarrow> nat option \<Rightarrow> 'w state
     \<Rightarrow> ((buffer option \<times> time \<times> error option) \<times> 'w state) option" where
  "backfill h k v ttl now lower s =
     (case lower of
        None \<Rightarrow> Some ((Some v, ttl, None), s)
      | Some a \<Rightarrow>
          (case node_at h a of
             None \<Rightarrow> None
           | Some n \<Rightarrow>
               (case callPut a (cur n) k (Some v) ttl s of
                  ((status, err), s') \<Rightarrow>
                    if err \<noteq> None \<or> status = CacheStatusFailure
                    then Some ((None, now, err), s')
                    else backfill h k v ttl now (prev n) s')))"

declare backfill.simps [code]

partial_function (option) readThrough ::
  "'w lCache list \<Rightarrow> CacheKey \<Rightarrow> time \<Rightarrow> nat option \<Rightarrow> 'w state
     \<Rightarrow> ((buffer option \<times> time \<times> error option) \<times> 'w state) option" where
  "readThrough h k now this s =
     (case this of
        None \<Rightarrow> Some ((None, now, None), s)
      | Some a \<Rightarrow>
          (case node_at h a of
             None \<Rightarrow> None
           | Some n \<Rightarrow>
               (case callGet a (cur n) k s of
                  ((val, ttl, _), s') \<Rightarrow>
                    (case val of
                       Some v \<Rightarrow> backfill h k v ttl now (prev n) s'
                     | None \<Rightarrow> readThrough h k now (next n) s'))))"

declare readThrough.simps [code]

partial_function (option) cacheAside ::
  "'w lCache list \<Rightarrow> CacheKey \<Rightarrow> time \<Rightarrow> nat option \<Rightarrow> 'w state
     \<Rightarrow> ((buffer option \<times> time \<times> error option) \<times> 'w state) option" where
  "cacheAside h k now this s =
     (case this of
        None \<Rightarrow> Some ((None, now, None), s)
      | Some a \<Rightarrow>
          (case node_at h a of
             None \<Rightarrow> None
           | Some n \<Rightarrow>
               (case callGet a (cur n) k s of
                  ((val, ttl, _), s') \<Rightarrow>
                    (case val of
                       Some v \<Rightarrow> Some ((Some v, ttl, None), go (BackfillTask a k v ttl) s')
                     | None \<Rightarrow> cacheAside h k now (next n) s'))))"

declare cacheAside.simps [code]

definition cacher_Get ::
  "'w cacher \<Rightarrow> CacheKey option \<Rightarrow> time \<Rightarrow> 'w state
     \<Rightarrow> ((buffer option \<times> time \<times> error option) \<times> 'w state) option" where
  "cacher_Get ca key now s =
     (case key of
        None \<Rightarrow> Some ((None, now, errs_New GetError), s)
      | Some k \<Rightarrow>
          if readPattern ca = ReadThrough then readThrough (nodes ca) k now (l1Cache ca) s
          else if readPattern ca = CacheAside then cacheAside (nodes ca) k now (l1Cache ca) s
          else Some ((None, now, None), s))"

section \<open>Put\<close>

partial_function (option) writeThrough ::
  "'w lCache list \<Rightarrow> CacheKey \<Rightarrow> buffer option \<Rightarrow> time \<Rightarrow> nat option \<Rightarrow> 'w state
     \<Rightarrow> ((CacheStatus \<times> error option) outcome \<times> 'w state) option" where
  "writeThrough h k val ttl this s =
     (case this of
        None \<Rightarrow> Some (Return (CacheStatusSuccess, None), s)
      | Some a \<Rightarrow>
          (case node_at h a of
             None \<Rightarrow> None
           | Some n \<Rightarrow>
               (case callPut a (cur n) k val ttl s of
                  ((cacheStatus, err), s') \<Rightarrow>
                    if err \<noteq> None \<or> cacheStatus = CacheStatusFailure
                    then Some (returnFailure (errs_Build err PutError), s')
                    else writeThrough h k val ttl (next n) s')))"

declare writeThrough.simps [code]

text \<open>\<open>this.cur\<close> with \<open>this\<close> nil is a nil-pointer panic.\<close>

definition writeAround ::
  "'w cacher \<Rightarrow> CacheKey \<Rightarrow> buffer option \<Rightarrow> time \<Rightarrow> 'w state
     \<Rightarrow> ((CacheStatus \<times> error option) outcome \<times> 'w state) option" where
  "writeAround ca k val ttl s =
     (case lnCache ca of
        None \<Rightarrow> Some (Panic, s)
      | Some a \<Rightarrow>
          (case node_at (nodes ca) a of
             None \<Rightarrow> None
           | Some n \<Rightarrow>
               (case callPut a (cur n) k val ttl s of
                  ((cacheStatus, err), s') \<Rightarrow>
                    if err \<noteq> None \<or> cacheStatus = CacheStatusFailure
                    then Some (returnFailure (errs_Build err PutError), s')
                    else Some (Return (CacheStatusSuccess, None), s'))))"

text \<open>The delay of the goroutine is 200 milliseconds.\<close>

definition writeBack ::
  "'w cacher \<Rightarrow> CacheKey \<Rightarrow> buffer option \<Rightarrow> time \<Rightarrow> 'w state
     \<Rightarrow> ((CacheStatus \<times> error option) outcome \<times> 'w state) option" where
  "writeBack ca k val ttl s =
     (case l1Cache ca of
        None \<Rightarrow> Some (Panic, s)
      | Some a \<Rightarrow>
          (case node_at (nodes ca) a of
             None \<Rightarrow> None
           | Some n \<Rightarrow>
               (case callPut a (cur n) k val ttl s of
                  ((cacheStatus, err), s') \<Rightarrow>
                    if err \<noteq> None \<or> cacheStatus = CacheStatusFailure
                    then Some (returnFailure (errs_Build err PutError), s')
                    else Some (Return (CacheStatusSuccess, None),
                               go (WriteBackTask 200 a k val ttl) s'))))"

definition cacher_Put ::
  "'w cacher \<Rightarrow> CacheKey option \<Rightarrow> buffer option \<Rightarrow> time \<Rightarrow> 'w state
     \<Rightarrow> ((CacheStatus \<times> error option) outcome \<times> 'w state) option" where
  "cacher_Put ca key val ttl s =
     (case key of
        None \<Rightarrow> Some (Return (CacheStatusFailure, errs_New PutError), s)
      | Some k \<Rightarrow>
          if (case val of None \<Rightarrow> False | Some v \<Rightarrow> int (length v) > maxValSize ca)
          then Some (Return (CacheStatusFailure, errs_New MaxValLenExceeded), s)
          else if writePattern ca = WriteThrough
            then writeThrough (nodes ca) k val ttl (l1Cache ca) s
          else if writePattern ca = WriteAround then writeAround ca k val ttl s
          else if writePattern ca = WriteBack then writeBack ca k val ttl s
          else Some (Return (CacheStatusSuccess, None), s))"

section \<open>Del, IsPresent and Flush\<close>

partial_function (option) delLoop ::
  "'w lCache list \<Rightarrow> CacheKey \<Rightarrow> nat option \<Rightarrow> 'w state
     \<Rightarrow> ((CacheStatus \<times> error option) outcome \<times> 'w state) option" where
  "delLoop h k this s =
     (case this of
        None \<Rightarrow> Some (Return (CacheStatusSuccess, None), s)
      | Some a \<Rightarrow>
          (case node_at h a of
             None \<Rightarrow> None
           | Some n \<Rightarrow>
               (case callDel a (cur n) k s of
                  ((cacheStatus, err), s') \<Rightarrow>
                    if err \<noteq> None \<or> cacheStatus = CacheStatusFailure
                    then Some (returnFailure (errs_Build err DelError), s')
                    else delLoop h k (prev n) s')))"

declare delLoop.simps [code]

definition cacher_Del ::
  "'w cacher \<Rightarrow> CacheKey option \<Rightarrow> 'w state
     \<Rightarrow> ((CacheStatus \<times> error option) outcome \<times> 'w state) option" where
  "cacher_Del ca key s =
     (case key of
        None \<Rightarrow> Some (Return (CacheStatusFailure, errs_New DelError), s)
      | Some k \<Rightarrow> delLoop (nodes ca) k (lnCache ca) s)"

definition cacher_IsPresent ::
  "'w cacher \<Rightarrow> CacheKey option \<Rightarrow> 'w state
     \<Rightarrow> ((CacheStatus \<times> error option) outcome \<times> 'w state) option" where
  "cacher_IsPresent ca key s =
     (case key of
        None \<Rightarrow> Some (Return (CacheStatusFailure, errs_New IsPresentError), s)
      | Some k \<Rightarrow>
          (case l1Cache ca of
             None \<Rightarrow> Some (Panic, s)
           | Some a \<Rightarrow>
               (case node_at (nodes ca) a of
                  None \<Rightarrow> None
                | Some n \<Rightarrow>
                    (case callIsPresent a (cur n) k s of
                       ((cacheStatus, err), s') \<Rightarrow>
                         if err \<noteq> None \<or> cacheStatus = CacheStatusFailure
                         then Some (returnFailure (errs_Build err IsPresentError), s')
                         else Some (Return (CacheStatusSuccess, None), s')))))"

partial_function (option) flushLoop ::
  "'w lCache list \<Rightarrow> nat option \<Rightarrow> 'w state \<Rightarrow> (error option \<times> 'w state) option" where
  "flushLoop h this s =
     (case this of
        None \<Rightarrow> Some (None, s)
      | Some a \<Rightarrow>
          (case node_at h a of
             None \<Rightarrow> None
           | Some n \<Rightarrow> flushLoop h (next n) (go (FlushTask a) s)))"

declare flushLoop.simps [code]

definition cacher_Flush :: "'w cacher \<Rightarrow> 'w state \<Rightarrow> (error option \<times> 'w state) option" where
  "cacher_Flush ca s = flushLoop (nodes ca) (l1Cache ca) s"

section \<open>Vocabulary for stating the properties\<close>

text \<open>
  The backends of a chain in level order, and the chain as the list of pairs
  (node address, backend). Level \<open>j + 1\<close> of the specification is at address
  \<open>j\<close>.
\<close>

definition levels :: "'w cacher \<Rightarrow> 'w Cacher list" where
  "levels ca = map cur (nodes ca)"

definition chain :: "'w cacher \<Rightarrow> (nat \<times> 'w Cacher) list" where
  "chain ca = enumerate 0 (levels ca)"

text \<open>
  Calling every element of a sequence of levels, one call after the other, each
  on the state the previous call left; and the \<open>j\<close>-th call of such a
  sequence, made after the first \<open>j\<close> calls.
\<close>

fun runCalls :: "('x \<Rightarrow> 's \<Rightarrow> 'r \<times> 's) \<Rightarrow> 'x list \<Rightarrow> 's \<Rightarrow> 's" where
  "runCalls f [] s = s"
| "runCalls f (x # xs) s = runCalls f xs (snd (f x s))"

definition callAt :: "('x \<Rightarrow> 's \<Rightarrow> 'r \<times> 's) \<Rightarrow> 'x list \<Rightarrow> nat \<Rightarrow> 's \<Rightarrow> 'r \<times> 's" where
  "callAt f xs j s = f (xs ! j) (runCalls f (take j xs) s)"

definition getOn ::
  "CacheKey \<Rightarrow> nat \<times> 'w Cacher \<Rightarrow> 'w state
     \<Rightarrow> (buffer option \<times> time \<times> error option) \<times> 'w state" where
  "getOn k x = callGet (fst x) (snd x) k"

definition putOn ::
  "CacheKey \<Rightarrow> buffer option \<Rightarrow> time \<Rightarrow> nat \<times> 'w Cacher \<Rightarrow> 'w state
     \<Rightarrow> (CacheStatus \<times> error option) \<times> 'w state" where
  "putOn k v t x = callPut (fst x) (snd x) k v t"

definition delOn ::
  "CacheKey \<Rightarrow> nat \<times> 'w Cacher \<Rightarrow> 'w state \<Rightarrow> (CacheStatus \<times> error option) \<times> 'w state" where
  "delOn k x = callDel (fst x) (snd x) k"

definition runGets :: "(nat \<times> 'w Cacher) list \<Rightarrow> CacheKey \<Rightarrow> 'w state \<Rightarrow> 'w state" where
  "runGets xs k s = runCalls (getOn k) xs s"

definition runPuts ::
  "(nat \<times> 'w Cacher) list \<Rightarrow> CacheKey \<Rightarrow> buffer option \<Rightarrow> time \<Rightarrow> 'w state \<Rightarrow> 'w state" where
  "runPuts xs k v t s = runCalls (putOn k v t) xs s"

definition runDels :: "(nat \<times> 'w Cacher) list \<Rightarrow> CacheKey \<Rightarrow> 'w state \<Rightarrow> 'w state" where
  "runDels xs k s = runCalls (delOn k) xs s"

definition getAt ::
  "(nat \<times> 'w Cacher) list \<Rightarrow> nat \<Rightarrow> CacheKey \<Rightarrow> 'w state
     \<Rightarrow> (buffer option \<times> time \<times> error option) \<times> 'w state" where
  "getAt xs j k s = callAt (getOn k) xs j s"

definition putAt ::
  "(nat \<times> 'w Cacher) list \<Rightarrow> nat \<Rightarrow> CacheKey \<Rightarrow> buffer option \<Rightarrow> time \<Rightarrow> 'w state
     \<Rightarrow> (CacheStatus \<times> error option) \<times> 'w state" where
  "putAt xs j k v t s = callAt (putOn k v t) xs j s"

definition delAt ::
  "(nat \<times> 'w Cacher) list \<Rightarrow> nat \<Rightarrow> CacheKey \<Rightarrow> 'w state
     \<Rightarrow> (CacheStatus \<times> error option) \<times> 'w state" where
  "delAt xs j k s = callAt (delOn k) xs j s"

text \<open>A call succeeded when it returned success status and a nil error.\<close>

definition succeeded :: "(CacheStatus \<times> error option) \<times> 'w state \<Rightarrow> bool" where
  "succeeded r = (fst r = (CacheStatusSuccess, None))"

text \<open>A level reports a failure status together with a nil error.\<close>

definition silentFailure :: "(CacheStatus \<times> error option) \<times> 'w state \<Rightarrow> bool" where
  "silentFailure r = (fst r = (CacheStatusFailure, None))"

section \<open>The loops over a list of levels\<close>

text \<open>
  The chain that \<open>NewMultiLevelCache\<close> wires for \<open>n\<close> backends, written
  down directly; and the two loop shapes of the operations as recursions over a
  list of levels: calling until the first call that does not succeed, and
  fetching until the first hit.
\<close>

definition chainNodes :: "'w Cacher list \<Rightarrow> nat \<Rightarrow> 'w lCache list" where
  "chainNodes caches n =
     map (\<lambda>i. \<lparr>cur = caches ! i,
               prev = (if i = 0 then None else Some (i - 1)),
               next = (if Suc i < n then Some (Suc i) else None)\<rparr>) [0..<n]"

fun firstFail ::
  "('x \<Rightarrow> 's \<Rightarrow> (CacheStatus \<times> error option) \<times> 's) \<Rightarrow> 'x list \<Rightarrow> 's
     \<Rightarrow> (CacheStatus \<times> error option) option \<times> 's" where
  "firstFail f [] s = (None, s)"
| "firstFail f (x # xs) s =
     (case f x s of
        ((status, err), s') \<Rightarrow>
          if err \<noteq> None \<or> status = CacheStatusFailure then (Some (status, err), s')
          else firstFail f xs s')"

fun firstHit ::
  "('x \<Rightarrow> 's \<Rightarrow> (buffer option \<times> time \<times> error option) \<times> 's) \<Rightarrow> 'x list \<Rightarrow> 's
     \<Rightarrow> ('x \<times> buffer \<times> time) option \<times> 's" where
  "firstHit f [] s = (None, s)"
| "firstHit f (x # xs) s =
     (case f x s of
        ((val, ttl, _), s') \<Rightarrow>
          (case val of
             Some v \<Rightarrow> (Some (x, v, ttl), s')
           | None \<Rightarrow> firstHit f xs s'))"

text \<open>An orchestrator whose chain is wired as \<open>NewMultiLevelCache\<close> wires it.\<close>

definition wired :: "'w cacher \<Rightarrow> bool" where
  "wired ca \<longleftrightarrow>
     levels ca \<noteq> [] \<and>
     nodes ca = chainNodes (levels ca) (length (levels ca)) \<and>
     l1Cache ca = Some 0 \<and>
     lnCache ca = Some (length (levels ca) - 1)"

text \<open>The guard of \<open>Put\<close> lets the value pass: it is nil or no longer than
  \<open>maxValSize\<close>.\<close>

definition withinSizeBound :: "'w cacher \<Rightarrow> buffer option \<Rightarrow> bool" where
  "withinSizeBound ca val =
     (case val of None \<Rightarrow> True | Some v \<Rightarrow> int (length v) \<le> maxValSize ca)"

section \<open>Backends used to run the operations\<close>

text \<open>
  \<open>mockCacher\<close> is the backend of the package's tests: a map from key strings to
  buffers. The world is the list of the maps of all mock backends, and backend
  \<open>i\<close> owns entry \<open>i\<close>; \<open>now\<close> is the clock reading it returns as expiry.
\<close>

type_synonym mockWorld = "(string \<times> buffer option) list list"

definition mockCacher :: "nat \<Rightarrow> time \<Rightarrow> mockWorld Cacher" where
  "mockCacher i now =
     \<lparr>Get = (\<lambda>k w. case map_of (w ! i) (AsString k) of
                      Some val \<Rightarrow> ((val, now, None), w)
                    | None \<Rightarrow> ((None, now, errs_New ''Could not get item''), w)),
      Put = (\<lambda>k val expires w.
               ((CacheStatusSuccess, None),
                w[i := (AsString k, val) # filter (\<lambda>p. fst p \<noteq> AsString k) (w ! i)])),
      Del = (\<lambda>k w.
               ((CacheStatusSuccess, None),
                w[i := filter (\<lambda>p. fst p \<noteq> AsString k) (w ! i)])),
      IsPresent = (\<lambda>k w.
               (if map_of (w ! i) (AsString k) \<noteq> None
                then (CacheStatusSuccess, None) else (CacheStatusFailure, None), w)),
      Flush = (\<lambda>w. (None, w[i := []]))\<rparr>"

text \<open>
  A backend that holds nothing and refuses every write and delete by returning
  the failure status with a nil error, the way \<open>mockCacher.IsPresent\<close> answers
  for an absent key.
\<close>

definition refusingCacher :: "'w Cacher" where
  "refusingCacher =
     \<lparr>Get = (\<lambda>k w. ((None, 0, None), w)),
      Put = (\<lambda>k val expires w. ((CacheStatusFailure, None), w)),
      Del = (\<lambda>k w. ((CacheStatusFailure, None), w)),
      IsPresent = (\<lambda>k w. ((CacheStatusFailure, None), w)),
      Flush = (\<lambda>w. (None, w))\<rparr>"

text \<open>A backend whose writes and deletes fail with an error.\<close>

definition failingCacher :: "string \<Rightarrow> 'w Cacher" where
  "failingCacher msg =
     \<lparr>Get = (\<lambda>k w. ((None, 0, None), w)),
      Put = (\<lambda>k val expires w. ((CacheStatusFailure, Some (errorString msg)), w)),
      Del = (\<lambda>k w. ((CacheStatusFailure, Some (errorString msg)), w)),
      IsPresent = (\<lambda>k w. ((CacheStatusFailure, Some (errorString msg)), w)),
      Flush = (\<lambda>w. (None, w))\<rparr>"

definition state0 :: "'w \<Rightarrow> 'w state" where
  "state0 w = \<lparr>world = w, calls = [], spawned = []\<rparr>"

text \<open>
  The orchestrator of the package's test: three mock levels, with empty maps to
  start from.
\<close>

definition testCacher ::
  "ReadPattern \<Rightarrow> WritePattern \<Rightarrow> int \<Rightarrow> mockWorld cacher option \<times> error option" where
  "testCacher rp wp mvs = NewMultiLevelCache rp wp mvs [mockCacher 0 0, mockCacher 1 0, mockCacher 2 0]"

definition emptyMocks :: "mockWorld state" where
  "emptyMocks = state0 [[], [], []]"

text \<open>The mock levels after a Write-Around store of "cosmos": only level 3 holds it.\<close>

definition cosmosAtLevel3 :: "mockWorld state" where
  "cosmosAtLevel3 = state0 [[], [], [(''cosmos'', Some ''carlsagan'')]]"

text \<open>The test orchestrator with level \<open>i + 1\<close> replaced by the refusing backend.\<close>

definition withRefusingLevel ::
  "nat \<Rightarrow> ReadPattern \<Rightarrow> WritePattern \<Rightarrow> mockWorld cacher option \<times> error option" where
  "withRefusingLevel i rp wp =
     NewMultiLevelCache rp wp 100
       ([mockCacher 0 0, mockCacher 1 0, mockCacher 2 0][i := refusingCacher])"

text \<open>The test orchestrator with level \<open>i + 1\<close> replaced by a backend that fails with
  an error.\<close>

definition withFailingLevel ::
  "nat \<Rightarrow> ReadPattern \<Rightarrow> WritePattern \<Rightarrow> mockWorld cacher option \<times> error option" where
  "withFailingLevel i rp wp =
     NewMultiLevelCache rp wp 100
       ([mockCacher 0 0, mockCacher 1 0, mockCacher 2 0][i := failingCacher ''disk full''])"

text \<open>Three levels that all fail with an error.\<close>

definition allLevelsFailing :: "mockWorld cacher option \<times> error option" where
  "allLevelsFailing =
     NewMultiLevelCache ReadThrough WriteThrough 100
       [failingCacher ''disk full'', failingCacher ''disk full'', failingCacher ''disk full'']"

section \<open>The chain built by NewMultiLevelCache\<close>

lemma length_chainNodes [simp]: "length (chainNodes caches n) = n"
  by (simp add: chainNodes_def)

lemma nth_chainNodes:
  "i < n \<Longrightarrow> chainNodes caches n ! i =
     \<lparr>cur = caches ! i, prev = (if i = 0 then None else Some (i - 1)),
      next = (if Suc i < n then Some (Suc i) else None)\<rparr>"
  by (simp add: chainNodes_def)

lemma chainNodes_step:
  assumes "0 < c"
  shows "(chainNodes caches c @ [\<lparr>cur = caches ! c, prev = Some (c - 1), next = None\<rparr>])
           [c - 1 := ((chainNodes caches c @ [\<lparr>cur = caches ! c, prev = Some (c - 1), next = None\<rparr>]) ! (c - 1))
                       \<lparr>next := Some c\<rparr>]
         = chainNodes caches (Suc c)"
proof (rule nth_equalityI)
  show "length ((chainNodes caches c @ [\<lparr>cur = caches ! c, prev = Some (c - 1), next = None\<rparr>])
           [c - 1 := ((chainNodes caches c @ [\<lparr>cur = caches ! c, prev = Some (c - 1), next = None\<rparr>]) ! (c - 1))
                       \<lparr>next := Some c\<rparr>]) = length (chainNodes caches (Suc c))"
    by simp
next
  fix i
  assume "i < length ((chainNodes caches c @ [\<lparr>cur = caches ! c, prev = Some (c - 1), next = None\<rparr>])
           [c - 1 := ((chainNodes caches c @ [\<lparr>cur = caches ! c, prev = Some (c - 1), next = None\<rparr>]) ! (c - 1))
                       \<lparr>next := Some c\<rparr>])"
  then have i: "i < Suc c" by simp
  consider "i = c" | "i = c - 1" "i < c" | "i < c - 1" using i assms by linarith
  then show "((chainNodes caches c @ [\<lparr>cur = caches ! c, prev = Some (c - 1), next = None\<rparr>])
           [c - 1 := ((chainNodes caches c @ [\<lparr>cur = caches ! c, prev = Some (c - 1), next = None\<rparr>]) ! (c - 1))
                       \<lparr>next := Some c\<rparr>]) ! i = chainNodes caches (Suc c) ! i"
  proof cases
    case 1
    then show ?thesis using assms by (simp add: nth_chainNodes nth_append)
  next
    case 2
    then show ?thesis using assms by (simp add: nth_chainNodes nth_append)
  next
    case 3
    then have "i < c" "Suc i < c" "i \<noteq> c - 1" by linarith+
    then show ?thesis by (simp add: nth_chainNodes nth_append)
  qed
qed

lemma buildChain_chain:
  "0 < unat ci \<Longrightarrow> ci \<le> n \<Longrightarrow>
     buildChain caches n ci (unat ci - 1) (chainNodes caches (unat ci))
       = (unat n - 1, chainNodes caches (unat n))"
proof (induction caches n ci "unat ci - 1" "chainNodes caches (unat ci)" rule: buildChain.induct)
  case (1 caches n ci)
  show ?case
  proof (cases "ci < n")
    case True
    have a: "unat ci < unat n" using True by (simp add: word_less_nat_alt)
    have b: "unat n < 256" using unsigned_less [of n, where ?'a = nat] by simp
    have "unat (ci + 1) = (unat ci + 1) mod 256" by (simp add: unat_word_ariths)
    with a b have u: "unat (ci + 1) = Suc (unat ci)" by simp
    have le: "ci + 1 \<le> n" using True by (simp add: inc_le)
    show ?thesis
      apply (subst buildChain.simps)
      using True 1 u le chainNodes_step [OF \<open>0 < unat ci\<close>, of caches]
      apply (simp add: Let_def)
      done
  next
    case False
    with 1(3) have "ci = n" by simp
    then show ?thesis by (subst buildChain.simps) simp
  qed
qed


lemma caches_index_in_range:
  "ci < (word_of_nat (length caches) :: 8 word) \<Longrightarrow> unat ci < length caches"
proof -
  assume "ci < (word_of_nat (length caches) :: 8 word)"
  then have "unat ci < unat (word_of_nat (length caches) :: 8 word)"
    by (simp only: word_less_nat_alt)
  also have "\<dots> = length caches mod 256" by (simp add: unat_of_nat)
  also have "\<dots> \<le> length caches" by simp
  finally show ?thesis .
qed

lemma validate_None:
  "validate n rp wp = None \<longleftrightarrow> n \<noteq> 0 \<and> n \<le> 5 \<and> rp < 2 \<and> wp < 3"
  by (auto simp: validate_def errs_New_def maxCaches_def endR_def endW_def
      NoWorkableCacheFound_def MaxCacheLevelExceeded_def InvalidReadPattern_def
      InvalidWritePattern_def not_le)

lemma chainNodes_one: "[\<lparr>cur = caches ! 0, prev = None, next = None\<rparr>] = chainNodes caches 1"
  by (simp add: chainNodes_def)

lemma NewMultiLevelCache_valid:
  assumes v: "validate (word_of_nat (length caches)) rp wp = None"
  shows "NewMultiLevelCache rp wp mvs caches =
           (Some \<lparr>nodes = chainNodes caches (length caches mod 256), l1Cache = Some 0,
                   lnCache = Some (length caches mod 256 - 1),
                   numCaches = word_of_nat (length caches), readPattern = rp,
                   writePattern = wp, maxValSize = mvs\<rparr>, None)"
proof -
  let ?n = "word_of_nat (length caches) :: 8 word"
  have n0: "?n \<noteq> 0" using v by (simp add: validate_None)
  have un: "unat ?n = length caches mod 256" by (simp add: unat_of_nat)
  have le: "(1 :: 8 word) \<le> ?n" using n0 by (simp add: word_le_nat_alt unat_gt_0 Suc_leI)
  have "buildChain caches ?n 1 (unat (1 :: 8 word) - 1) (chainNodes caches (unat (1 :: 8 word)))
          = (unat ?n - 1, chainNodes caches (unat ?n))"
    by (rule buildChain_chain) (use le in simp_all)
  then have "buildChain caches ?n 1 0 [\<lparr>cur = caches ! 0, prev = None, next = None\<rparr>]
          = (length caches mod 256 - 1, chainNodes caches (length caches mod 256))"
    by (simp add: un chainNodes_one)
  then show ?thesis using v by (simp add: NewMultiLevelCache_def Let_def)
qed

lemma NewMultiLevelCache_invalid:
  "validate (word_of_nat (length caches)) rp wp = Some e \<Longrightarrow>
     NewMultiLevelCache rp wp mvs caches = (None, Some e)"
  by (simp add: NewMultiLevelCache_def Let_def)

lemma buildChain_int_chain:
  "0 < c \<Longrightarrow> c \<le> unat n \<Longrightarrow>
     buildChain_int caches n (int c) (c - 1) (chainNodes caches c)
       = (unat n - 1, chainNodes caches (unat n))"
proof (induction "unat n - c" arbitrary: c)
  case 0
  then have "c = unat n" by simp
  then show ?case by (subst buildChain_int.simps) simp
next
  case (Suc m)
  then have lt: "c < unat n" by simp
  then have "int c < int (unat n)" by (simp only: of_nat_less_iff)
  then have lt': "int c < uint n" by simp
  have m: "m = unat n - Suc c" using Suc.hyps(2) by simp
  have step: "buildChain_int caches n (int (Suc c)) (Suc c - 1) (chainNodes caches (Suc c))
       = (unat n - 1, chainNodes caches (unat n))"
    by (rule Suc.hyps(1) [OF m]) (use lt in simp_all)
  have i: "int c + 1 = int (Suc c)" by simp
  show ?case
    apply (subst buildChain_int.simps)
    using lt' step chainNodes_step [OF \<open>0 < c\<close>, of caches]
    apply (simp add: Let_def i del: of_nat_Suc)
    done
qed

lemma NewMultiLevelCache_inline_eq:
  assumes v: "validate (word_of_nat (length caches)) rp wp = None"
  shows "NewMultiLevelCache_inline rp wp mvs caches = NewMultiLevelCache rp wp mvs caches"
proof -
  let ?n = "word_of_nat (length caches) :: 8 word"
  from v have n0: "?n \<noteq> 0" and n5: "?n \<le> 5" by (simp_all add: validate_None)
  have un: "unat ?n = length caches mod 256" by (simp add: unat_of_nat)
  have pos: "1 \<le> unat ?n" using n0 by (simp add: unat_gt_0 Suc_leI)
  have "buildChain_int caches ?n (int 1) (1 - 1) (chainNodes caches 1)
          = (unat ?n - 1, chainNodes caches (unat ?n))"
    by (rule buildChain_int_chain) (use pos in simp_all)
  then have "buildChain_int caches ?n 1 0 [\<lparr>cur = caches ! 0, prev = None, next = None\<rparr>]
          = (length caches mod 256 - 1, chainNodes caches (length caches mod 256))"
    by (simp add: un chainNodes_one)
  then show ?thesis
    using NewMultiLevelCache_valid [OF v, of mvs] n0 n5
    by (simp add: NewMultiLevelCache_inline_def Let_def maxCaches_def not_less [symmetric])
qed

lemma NewMultiLevelCache_inline_constructed:
  assumes c: "NewMultiLevelCache_inline rp wp mvs caches = (Some ca, None)"
      and rp: "rp < 2" and wp: "wp < 3"
  shows "NewMultiLevelCache rp wp mvs caches = (Some ca, None)"
proof -
  let ?n = "word_of_nat (length caches) :: 8 word"
  have "?n \<noteq> 0 \<and> ?n \<le> 5"
    using c
    by (auto simp: NewMultiLevelCache_inline_def Let_def maxCaches_def errs_New_def
        NoWorkableCacheFound_def MaxCacheLevelExceeded_def not_less split: if_splits)
  then have "validate ?n rp wp = None" using rp wp by (simp add: validate_None)
  from NewMultiLevelCache_inline_eq [OF this, of mvs] c show ?thesis by simp
qed

lemma NewMultiLevelCache_inline_any_pattern:
  "fst (NewMultiLevelCache_inline 7 9 100 [mockCacher 0 0]) \<noteq> None \<and>
   snd (NewMultiLevelCache_inline 7 9 100 [mockCacher 0 0]) = None"
  by code_simp

section \<open>Validation\<close>

lemma validate_cases:
  "validate n rp wp =
     (if n = 0 then Some (errorString ''No workable cache found'')
      else if 5 < n then Some (errorString ''Max cache level exceeded'')
      else if 2 \<le> rp then Some (errorString ''Invalid read pattern'')
      else if 3 \<le> wp then Some (errorString ''Invalid write pattern'')
      else None)"
  by (simp add: validate_def errs_New_def maxCaches_def endR_def endW_def
      NoWorkableCacheFound_def MaxCacheLevelExceeded_def InvalidReadPattern_def
      InvalidWritePattern_def)

lemma NewMultiLevelCache_validation:
  assumes len: "length caches < 256"
  shows "NewMultiLevelCache rp wp mvs caches =
     (if length caches = 0 then (None, Some (errorString ''No workable cache found''))
      else if 5 < length caches then (None, Some (errorString ''Max cache level exceeded''))
      else if 2 \<le> rp then (None, Some (errorString ''Invalid read pattern''))
      else if 3 \<le> wp then (None, Some (errorString ''Invalid write pattern''))
      else (Some \<lparr>nodes = chainNodes caches (length caches), l1Cache = Some 0,
                   lnCache = Some (length caches - 1),
                   numCaches = word_of_nat (length caches), readPattern = rp,
                   writePattern = wp, maxValSize = mvs\<rparr>, None))"
proof -
  let ?n = "word_of_nat (length caches) :: 8 word"
  have un: "unat ?n = length caches" using len by (simp add: unat_of_nat)
  have z: "?n = 0 \<longleftrightarrow> length caches = 0" using un by (metis unat_eq_0)
  have "unat (5 :: 8 word) = 5" by simp
  then have f: "5 < ?n \<longleftrightarrow> 5 < length caches" using un by (simp add: word_less_nat_alt)
  show ?thesis
  proof (cases "validate ?n rp wp")
    case None
    then show ?thesis
      using NewMultiLevelCache_valid [OF None, of mvs] len z f
      by (simp add: validate_cases split: if_splits)
  next
    case (Some e)
    then show ?thesis
      using NewMultiLevelCache_invalid [OF Some, of mvs] z f
      by (simp add: validate_cases split: if_splits)
  qed
qed

section \<open>Calling until the first failure, fetching until the first hit\<close>

lemma callAt_0: "callAt f (x # xs) 0 s = f x s"
  by (simp add: callAt_def)

lemma callAt_Suc: "callAt f (x # xs) (Suc j) s = callAt f xs j (snd (f x s))"
  by (simp add: callAt_def)

lemma firstFail_Cons_ok:
  "fst (f x s) = (CacheStatusSuccess, None) \<Longrightarrow>
     firstFail f (x # xs) s = firstFail f xs (snd (f x s))"
  by (cases "f x s") auto

lemma firstFail_Cons_bad:
  "fst (f x s) \<noteq> (CacheStatusSuccess, None) \<Longrightarrow>
     firstFail f (x # xs) s = (Some (fst (f x s)), snd (f x s))"
proof -
  assume bad: "fst (f x s) \<noteq> (CacheStatusSuccess, None)"
  obtain st err s' where r: "f x s = ((st, err), s')" by (metis surj_pair)
  with bad have "err \<noteq> None \<or> st = CacheStatusFailure" by (cases st) auto
  with r show ?thesis by auto
qed

lemma firstHit_Cons_miss:
  "fst (fst (f x s)) = None \<Longrightarrow> firstHit f (x # xs) s = firstHit f xs (snd (f x s))"
  by (cases "f x s") auto

lemma firstHit_Cons_hit:
  "f x s = ((Some v, ttl, e), s1) \<Longrightarrow> firstHit f (x # xs) s = (Some (x, v, ttl), s1)"
  by simp

lemma firstFail_all_ok:
  "(\<forall>j<length xs. fst (callAt f xs j s) = (CacheStatusSuccess, None)) \<Longrightarrow>
     firstFail f xs s = (None, runCalls f xs s)"
proof (induction xs arbitrary: s)
  case Nil
  then show ?case by simp
next
  case (Cons x xs)
  from Cons.prems have h: "fst (f x s) = (CacheStatusSuccess, None)"
    by (metis callAt_0 length_greater_0_conv list.distinct(1))
  have "\<forall>j<length xs. fst (callAt f xs j (snd (f x s))) = (CacheStatusSuccess, None)"
    using Cons.prems by (metis callAt_Suc Suc_less_eq length_Cons)
  then have "firstFail f xs (snd (f x s)) = (None, runCalls f xs (snd (f x s)))"
    by (rule Cons.IH)
  with h show ?case by (simp add: firstFail_Cons_ok del: firstFail.simps)
qed

lemma firstFail_at:
  "j < length xs \<Longrightarrow>
   (\<forall>i<j. fst (callAt f xs i s) = (CacheStatusSuccess, None)) \<Longrightarrow>
   fst (callAt f xs j s) \<noteq> (CacheStatusSuccess, None) \<Longrightarrow>
     firstFail f xs s = (Some (fst (callAt f xs j s)), snd (callAt f xs j s))"
proof (induction xs arbitrary: j s)
  case Nil
  then show ?case by simp
next
  case (Cons x xs)
  show ?case
  proof (cases j)
    case 0
    with Cons.prems(3) have "fst (f x s) \<noteq> (CacheStatusSuccess, None)"
      by (simp add: callAt_0)
    then show ?thesis using 0
      by (simp add: firstFail_Cons_bad callAt_0 del: firstFail.simps)
  next
    case (Suc m)
    with Cons.prems(2) have h: "fst (f x s) = (CacheStatusSuccess, None)"
      by (metis callAt_0 zero_less_Suc)
    have m: "m < length xs" using Cons.prems(1) Suc by simp
    have ok: "\<forall>i<m. fst (callAt f xs i (snd (f x s))) = (CacheStatusSuccess, None)"
      using Cons.prems(2) Suc by (metis callAt_Suc Suc_less_eq)
    have bad: "fst (callAt f xs m (snd (f x s))) \<noteq> (CacheStatusSuccess, None)"
      using Cons.prems(3) Suc by (simp add: callAt_Suc)
    from Cons.IH [OF m ok bad] h Suc show ?thesis
      by (simp add: callAt_Suc firstFail_Cons_ok del: firstFail.simps)
  qed
qed

lemma firstFail_Some:
  "firstFail f xs s = (Some r, s') \<Longrightarrow>
     r \<noteq> (CacheStatusSuccess, None) \<and> (\<exists>x\<in>set xs. \<exists>s0. fst (f x s0) = r)"
proof (induction xs arbitrary: s)
  case Nil
  then show ?case by simp
next
  case (Cons x xs)
  show ?case
  proof (cases "fst (f x s) = (CacheStatusSuccess, None)")
    case True
    with Cons.prems have "firstFail f xs (snd (f x s)) = (Some r, s')"
      by (simp add: firstFail_Cons_ok del: firstFail.simps)
    from Cons.IH [OF this] show ?thesis by auto
  next
    case False
    with Cons.prems have "r = fst (f x s)"
      by (simp add: firstFail_Cons_bad del: firstFail.simps)
    with False show ?thesis by auto
  qed
qed

lemma firstHit_none:
  "(\<forall>j<length xs. fst (fst (callAt f xs j s)) = None) \<Longrightarrow>
     firstHit f xs s = (None, runCalls f xs s)"
proof (induction xs arbitrary: s)
  case Nil
  then show ?case by simp
next
  case (Cons x xs)
  from Cons.prems have h: "fst (fst (f x s)) = None"
    by (metis callAt_0 length_greater_0_conv list.distinct(1))
  have "\<forall>j<length xs. fst (fst (callAt f xs j (snd (f x s)))) = None"
    using Cons.prems by (metis callAt_Suc Suc_less_eq length_Cons)
  then have "firstHit f xs (snd (f x s)) = (None, runCalls f xs (snd (f x s)))"
    by (rule Cons.IH)
  with h show ?case by (simp add: firstHit_Cons_miss del: firstHit.simps)
qed

lemma firstHit_at:
  "j < length xs \<Longrightarrow>
   (\<forall>i<j. fst (fst (callAt f xs i s)) = None) \<Longrightarrow>
   callAt f xs j s = ((Some v, ttl, e), s1) \<Longrightarrow>
     firstHit f xs s = (Some (xs ! j, v, ttl), s1)"
proof (induction xs arbitrary: j s)
  case Nil
  then show ?case by simp
next
  case (Cons x xs)
  show ?case
  proof (cases j)
    case 0
    with Cons.prems(3) show ?thesis by (simp add: callAt_0)
  next
    case (Suc m)
    with Cons.prems(2) have h: "fst (fst (f x s)) = None"
      by (metis callAt_0 zero_less_Suc)
    have m: "m < length xs" using Cons.prems(1) Suc by simp
    have ok: "\<forall>i<m. fst (fst (callAt f xs i (snd (f x s)))) = None"
      using Cons.prems(2) Suc by (metis callAt_Suc Suc_less_eq)
    have hit: "callAt f xs m (snd (f x s)) = ((Some v, ttl, e), s1)"
      using Cons.prems(3) Suc by (simp add: callAt_Suc)
    from Cons.IH [OF m ok hit] h Suc show ?thesis
      by (simp add: firstHit_Cons_miss del: firstHit.simps)
  qed
qed

section \<open>The loops on a wired chain\<close>

lemma node_at_chain:
  "i < n \<Longrightarrow> node_at (chainNodes ls n) i =
     Some \<lparr>cur = ls ! i, prev = (if i = 0 then None else Some (i - 1)),
           next = (if Suc i < n then Some (Suc i) else None)\<rparr>"
  by (simp add: node_at_def nth_chainNodes)

lemma drop_enumerate_Cons:
  "i < length ls \<Longrightarrow> drop i (enumerate 0 ls) = (i, ls ! i) # drop (Suc i) (enumerate 0 ls)"
  by (metis Cons_nth_drop_Suc add_0 length_enumerate nth_enumerate_eq)

lemma rev_take_enumerate_Suc:
  "i < length ls \<Longrightarrow>
     rev (take (Suc i) (enumerate 0 ls)) = (i, ls ! i) # rev (take i (enumerate 0 ls))"
  by (simp add: take_Suc_conv_app_nth nth_enumerate_eq)

lemma not_ok_iff:
  "(err \<noteq> None \<or> st = CacheStatusFailure) \<longleftrightarrow> (st, err) \<noteq> (CacheStatusSuccess, None)"
  by (cases st) auto

lemma writeThrough_chain:
  "i \<le> length ls \<Longrightarrow>
     writeThrough (chainNodes ls (length ls)) k v t (if i < length ls then Some i else None) s =
       Some (case firstFail (putOn k v t) (drop i (enumerate 0 ls)) s of
               (None, s') \<Rightarrow> (Return (CacheStatusSuccess, None), s')
             | (Some (st, err), s') \<Rightarrow> (returnFailure (errs_Build err PutError), s'))"
proof (induction "length ls - i" arbitrary: i s)
  case 0
  then have "i = length ls" by simp
  then show ?case by (subst writeThrough.simps) simp
next
  case (Suc m)
  then have lt: "i < length ls" by simp
  obtain st err s' where r: "callPut i (ls ! i) k v t s = ((st, err), s')"
    by (metis surj_pair)
  show ?case
  proof (cases "(st, err) = (CacheStatusSuccess, None)")
    case True
    have m: "m = length ls - Suc i" using Suc.hyps(2) by simp
    have le: "Suc i \<le> length ls" using lt by simp
    have ff: "firstFail (putOn k v t) (drop i (enumerate 0 ls)) s =
              firstFail (putOn k v t) (drop (Suc i) (enumerate 0 ls)) s'"
      using True r lt
      by (simp add: drop_enumerate_Cons firstFail_Cons_ok putOn_def del: firstFail.simps)
    show ?thesis
      apply (subst writeThrough.simps)
      using lt True r Suc.hyps(1) [OF m le, of s'] ff
      apply (simp add: node_at_chain)
      done
  next
    case False
    have ff: "firstFail (putOn k v t) (drop i (enumerate 0 ls)) s = (Some (st, err), s')"
      using False r lt
      by (simp add: drop_enumerate_Cons firstFail_Cons_bad putOn_def del: firstFail.simps)
    show ?thesis
      apply (subst writeThrough.simps)
      using lt False r ff not_ok_iff [of err st]
      apply (simp add: node_at_chain)
      done
  qed
qed

lemma delLoop_chain:
  "i \<le> length ls \<Longrightarrow>
     delLoop (chainNodes ls (length ls)) k (if i = 0 then None else Some (i - 1)) s =
       Some (case firstFail (delOn k) (rev (take i (enumerate 0 ls))) s of
               (None, s') \<Rightarrow> (Return (CacheStatusSuccess, None), s')
             | (Some (st, err), s') \<Rightarrow> (returnFailure (errs_Build err DelError), s'))"
proof (induction i arbitrary: s)
  case 0
  then show ?case by (subst delLoop.simps) simp
next
  case (Suc i)
  then have lt: "i < length ls" by simp
  obtain st err s' where r: "callDel i (ls ! i) k s = ((st, err), s')"
    by (metis surj_pair)
  show ?case
  proof (cases "(st, err) = (CacheStatusSuccess, None)")
    case True
    have le: "i \<le> length ls" using lt by simp
    have ff: "firstFail (delOn k) (rev (take (Suc i) (enumerate 0 ls))) s =
              firstFail (delOn k) (rev (take i (enumerate 0 ls))) s'"
      using True r lt
      by (simp add: rev_take_enumerate_Suc firstFail_Cons_ok delOn_def del: firstFail.simps)
    show ?thesis
      apply (subst delLoop.simps)
      using lt True r Suc.IH [OF le, of s'] ff
      apply (simp add: node_at_chain)
      done
  next
    case False
    have ff: "firstFail (delOn k) (rev (take (Suc i) (enumerate 0 ls))) s = (Some (st, err), s')"
      using False r lt
      by (simp add: rev_take_enumerate_Suc firstFail_Cons_bad delOn_def del: firstFail.simps)
    show ?thesis
      apply (subst delLoop.simps)
      using lt False r ff not_ok_iff [of err st]
      apply (simp add: node_at_chain)
      done
  qed
qed

lemma backfill_chain:
  "i \<le> length ls \<Longrightarrow>
     backfill (chainNodes ls (length ls)) k v ttl now (if i = 0 then None else Some (i - 1)) s =
       Some (case firstFail (putOn k (Some v) ttl) (rev (take i (enumerate 0 ls))) s of
               (None, s') \<Rightarrow> ((Some v, ttl, None), s')
             | (Some (st, err), s') \<Rightarrow> ((None, now, err), s'))"
proof (induction i arbitrary: s)
  case 0
  then show ?case by (subst backfill.simps) simp
next
  case (Suc i)
  then have lt: "i < length ls" by simp
  obtain st err s' where r: "callPut i (ls ! i) k (Some v) ttl s = ((st, err), s')"
    by (metis surj_pair)
  show ?case
  proof (cases "(st, err) = (CacheStatusSuccess, None)")
    case True
    have le: "i \<le> length ls" using lt by simp
    have ff: "firstFail (putOn k (Some v) ttl) (rev (take (Suc i) (enumerate 0 ls))) s =
              firstFail (putOn k (Some v) ttl) (rev (take i (enumerate 0 ls))) s'"
      using True r lt
      by (simp add: rev_take_enumerate_Suc firstFail_Cons_ok putOn_def del: firstFail.simps)
    show ?thesis
      apply (subst backfill.simps)
      using lt True r Suc.IH [OF le, of s'] ff
      apply (simp add: node_at_chain)
      done
  next
    case False
    have ff: "firstFail (putOn k (Some v) ttl) (rev (take (Suc i) (enumerate 0 ls))) s
                = (Some (st, err), s')"
      using False r lt
      by (simp add: rev_take_enumerate_Suc firstFail_Cons_bad putOn_def del: firstFail.simps)
    show ?thesis
      apply (subst backfill.simps)
      using lt False r ff not_ok_iff [of err st]
      apply (simp add: node_at_chain)
      done
  qed
qed

lemma readThrough_chain:
  "i \<le> length ls \<Longrightarrow>
     readThrough (chainNodes ls (length ls)) k now (if i < length ls then Some i else None) s =
       Some (case firstHit (getOn k) (drop i (enumerate 0 ls)) s of
               (None, s') \<Rightarrow> ((None, now, None), s')
             | (Some (x, v, ttl), s') \<Rightarrow>
                 (case firstFail (putOn k (Some v) ttl) (rev (take (fst x) (enumerate 0 ls))) s' of
                    (None, s'') \<Rightarrow> ((Some v, ttl, None), s'')
                  | (Some (st, err), s'') \<Rightarrow> ((None, now, err), s'')))"
proof (induction "length ls - i" arbitrary: i s)
  case 0
  then have "i = length ls" by simp
  then show ?case by (subst readThrough.simps) simp
next
  case (Suc m)
  then have lt: "i < length ls" by simp
  obtain val ttl e s' where r: "callGet i (ls ! i) k s = ((val, ttl, e), s')"
    by (metis surj_pair)
  show ?case
  proof (cases val)
    case None
    have m: "m = length ls - Suc i" using Suc.hyps(2) by simp
    have le: "Suc i \<le> length ls" using lt by simp
    have fh: "firstHit (getOn k) (drop i (enumerate 0 ls)) s =
              firstHit (getOn k) (drop (Suc i) (enumerate 0 ls)) s'"
      using None r lt
      by (simp add: drop_enumerate_Cons firstHit_Cons_miss getOn_def del: firstHit.simps)
    show ?thesis
      apply (subst readThrough.simps)
      using lt None r Suc.hyps(1) [OF m le, of s'] fh
      apply (simp add: node_at_chain)
      done
  next
    case (Some v)
    have fh: "firstHit (getOn k) (drop i (enumerate 0 ls)) s = (Some ((i, ls ! i), v, ttl), s')"
      using Some r lt
      by (simp add: drop_enumerate_Cons getOn_def)
    have le: "i \<le> length ls" using lt by simp
    show ?thesis
      apply (subst readThrough.simps)
      using lt Some r fh backfill_chain [OF le, of k v ttl now s']
      apply (simp add: node_at_chain)
      done
  qed
qed

lemma cacheAside_chain:
  "i \<le> length ls \<Longrightarrow>
     cacheAside (chainNodes ls (length ls)) k now (if i < length ls then Some i else None) s =
       Some (case firstHit (getOn k) (drop i (enumerate 0 ls)) s of
               (None, s') \<Rightarrow> ((None, now, None), s')
             | (Some (x, v, ttl), s') \<Rightarrow>
                 ((Some v, ttl, None), go (BackfillTask (fst x) k v ttl) s'))"
proof (induction "length ls - i" arbitrary: i s)
  case 0
  then have "i = length ls" by simp
  then show ?case by (subst cacheAside.simps) simp
next
  case (Suc m)
  then have lt: "i < length ls" by simp
  obtain val ttl e s' where r: "callGet i (ls ! i) k s = ((val, ttl, e), s')"
    by (metis surj_pair)
  show ?case
  proof (cases val)
    case None
    have m: "m = length ls - Suc i" using Suc.hyps(2) by simp
    have le: "Suc i \<le> length ls" using lt by simp
    have fh: "firstHit (getOn k) (drop i (enumerate 0 ls)) s =
              firstHit (getOn k) (drop (Suc i) (enumerate 0 ls)) s'"
      using None r lt
      by (simp add: drop_enumerate_Cons firstHit_Cons_miss getOn_def del: firstHit.simps)
    show ?thesis
      apply (subst cacheAside.simps)
      using lt None r Suc.hyps(1) [OF m le, of s'] fh
      apply (simp add: node_at_chain)
      done
  next
    case (Some v)
    have fh: "firstHit (getOn k) (drop i (enumerate 0 ls)) s = (Some ((i, ls ! i), v, ttl), s')"
      using Some r lt
      by (simp add: drop_enumerate_Cons getOn_def)
    show ?thesis
      apply (subst cacheAside.simps)
      using lt Some r fh
      apply (simp add: node_at_chain)
      done
  qed
qed

lemma calls_callPut: "calls (snd (callPut a c k v t s)) = calls s @ [(a, PutCall k v t)]"
  by (simp add: callPut_def split: prod.splits)

lemma calls_callGet: "calls (snd (callGet a c k s)) = calls s @ [(a, GetCall k)]"
  by (simp add: callGet_def split: prod.splits)

lemma calls_callDel: "calls (snd (callDel a c k s)) = calls s @ [(a, DelCall k)]"
  by (simp add: callDel_def split: prod.splits)

lemma spawned_callPut: "spawned (snd (callPut a c k v t s)) = spawned s"
  by (simp add: callPut_def split: prod.splits)

lemma spawned_callGet: "spawned (snd (callGet a c k s)) = spawned s"
  by (simp add: callGet_def split: prod.splits)

lemma spawned_callDel: "spawned (snd (callDel a c k s)) = spawned s"
  by (simp add: callDel_def split: prod.splits)

lemma calls_runPuts:
  "calls (runPuts xs k v t s) = calls s @ map (\<lambda>x. (fst x, PutCall k v t)) xs"
  unfolding runPuts_def
  by (induction xs arbitrary: s) (simp_all add: putOn_def calls_callPut)

lemma calls_runGets:
  "calls (runGets xs k s) = calls s @ map (\<lambda>x. (fst x, GetCall k)) xs"
  unfolding runGets_def
  by (induction xs arbitrary: s) (simp_all add: getOn_def calls_callGet)

lemma calls_runDels:
  "calls (runDels xs k s) = calls s @ map (\<lambda>x. (fst x, DelCall k)) xs"
  unfolding runDels_def
  by (induction xs arbitrary: s) (simp_all add: delOn_def calls_callDel)

lemma spawned_runPuts: "spawned (runPuts xs k v t s) = spawned s"
  unfolding runPuts_def
  by (induction xs arbitrary: s) (simp_all add: putOn_def spawned_callPut)

lemma spawned_runGets: "spawned (runGets xs k s) = spawned s"
  unfolding runGets_def
  by (induction xs arbitrary: s) (simp_all add: getOn_def spawned_callGet)

lemma spawned_runDels: "spawned (runDels xs k s) = spawned s"
  unfolding runDels_def
  by (induction xs arbitrary: s) (simp_all add: delOn_def spawned_callDel)

section \<open>The operations of a constructed orchestrator\<close>

lemma map_cur_chainNodes:
  "n \<le> length caches \<Longrightarrow> map cur (chainNodes caches n) = take n caches"
  by (rule nth_equalityI) (simp_all add: chainNodes_def)

lemma chainNodes_take:
  "n \<le> length caches \<Longrightarrow> chainNodes (take n caches) n = chainNodes caches n"
  by (simp add: chainNodes_def)

lemma constructed_wired:
  assumes c: "NewMultiLevelCache rp wp mvs caches = (Some ca, None)"
  shows "wired ca \<and> readPattern ca = rp \<and> writePattern ca = wp \<and> maxValSize ca = mvs \<and>
         rp < 2 \<and> wp < 3 \<and> length (levels ca) \<le> 5 \<and>
         levels ca = take (length caches mod 256) caches"
proof -
  let ?n = "length caches mod 256"
  let ?w = "word_of_nat (length caches) :: 8 word"
  have v: "validate ?w rp wp = None"
  proof (cases "validate ?w rp wp")
    case None
    then show ?thesis .
  next
    case (Some e)
    from NewMultiLevelCache_invalid [OF Some, of mvs] c show ?thesis by simp
  qed
  have un: "unat ?w = ?n" by (simp add: unat_of_nat)
  from v have w0: "?w \<noteq> 0" and w5: "?w \<le> 5" and rp: "rp < 2" and wp: "wp < 3"
    by (simp_all add: validate_None)
  have n0: "?n \<noteq> 0" using w0 un by (metis unat_eq_0)
  have "unat ?w \<le> unat (5 :: 8 word)" using w5 by (simp only: word_le_nat_alt)
  then have n5: "?n \<le> 5" using un by simp
  have nle: "?n \<le> length caches" by simp
  have ca: "ca = \<lparr>nodes = chainNodes caches ?n, l1Cache = Some 0, lnCache = Some (?n - 1),
                  numCaches = ?w, readPattern = rp, writePattern = wp, maxValSize = mvs\<rparr>"
    using NewMultiLevelCache_valid [OF v, of mvs] c by simp
  have lv: "levels ca = take ?n caches"
    using map_cur_chainNodes [OF nle] by (simp add: levels_def ca)
  have len: "length (levels ca) = ?n" using lv nle by simp
  have ne: "caches \<noteq> []" using n0 by auto
  have "wired ca"
    unfolding wired_def
    using lv len n0 ne chainNodes_take [OF nle]
    by (simp add: ca)
  then show ?thesis using lv len n5 rp wp by (simp add: ca)
qed

lemma chain_length [simp]: "length (chain ca) = length (levels ca)"
  by (simp add: chain_def)

lemma chain_nth: "j < length (levels ca) \<Longrightarrow> chain ca ! j = (j, levels ca ! j)"
  by (simp add: chain_def nth_enumerate_eq)

lemma map_fst_chain: "map fst (chain ca) = [0..<length (levels ca)]"
  by (simp add: chain_def enumerate_eq_zip)

lemma Put_guard_passed:
  "withinSizeBound ca val \<Longrightarrow>
     cacher_Put ca (Some k) val ttl s =
       (if writePattern ca = WriteThrough
          then writeThrough (nodes ca) k val ttl (l1Cache ca) s
        else if writePattern ca = WriteAround then writeAround ca k val ttl s
        else if writePattern ca = WriteBack then writeBack ca k val ttl s
        else Some (Return (CacheStatusSuccess, None), s))"
  by (cases val) (simp_all add: cacher_Put_def withinSizeBound_def)

lemma Put_WriteThrough_eq:
  assumes "wired ca" "writePattern ca = WriteThrough" "withinSizeBound ca val"
  shows "cacher_Put ca (Some k) val ttl s =
           Some (case firstFail (putOn k val ttl) (chain ca) s of
                   (None, s') \<Rightarrow> (Return (CacheStatusSuccess, None), s')
                 | (Some (st, err), s') \<Rightarrow> (returnFailure (errs_Build err PutError), s'))"
  using assms writeThrough_chain [of 0 "levels ca" k val ttl s]
  by (simp add: Put_guard_passed wired_def chain_def)

lemma Put_WriteAround_eq:
  assumes "wired ca" "writePattern ca = WriteAround" "withinSizeBound ca val"
  shows "cacher_Put ca (Some k) val ttl s =
           Some (case callPut (length (levels ca) - 1) (last (levels ca)) k val ttl s of
                   ((st, err), s') \<Rightarrow>
                     if (st, err) = (CacheStatusSuccess, None)
                     then (Return (CacheStatusSuccess, None), s')
                     else (returnFailure (errs_Build err PutError), s'))"
proof -
  have n: "length (levels ca) - 1 < length (levels ca)" using assms(1) by (simp add: wired_def)
  have l: "levels ca ! (length (levels ca) - 1) = last (levels ca)"
    using assms(1) by (simp add: wired_def last_conv_nth)
  obtain st err s' where r:
    "callPut (length (levels ca) - 1) (last (levels ca)) k val ttl s = ((st, err), s')"
    by (metis surj_pair)
  have na: "node_at (nodes ca) (length (levels ca) - 1) =
        Some \<lparr>cur = last (levels ca),
              prev = (if length (levels ca) - 1 = 0 then None else Some (length (levels ca) - 1 - 1)),
              next = None\<rparr>"
    using assms(1) node_at_chain [OF n, of "levels ca"] l by (simp add: wired_def)
  show ?thesis
    using assms r na not_ok_iff [of err st]
    by (simp add: Put_guard_passed writeAround_def wired_def WriteAround_def WriteThrough_def)
qed

lemma Put_WriteBack_eq:
  assumes "wired ca" "writePattern ca = WriteBack" "withinSizeBound ca val"
  shows "cacher_Put ca (Some k) val ttl s =
           Some (case callPut 0 (hd (levels ca)) k val ttl s of
                   ((st, err), s') \<Rightarrow>
                     if (st, err) = (CacheStatusSuccess, None)
                     then (Return (CacheStatusSuccess, None), go (WriteBackTask 200 0 k val ttl) s')
                     else (returnFailure (errs_Build err PutError), s'))"
proof -
  have n: "0 < length (levels ca)" using assms(1) by (simp add: wired_def)
  have l: "levels ca ! 0 = hd (levels ca)"
    using assms(1) by (simp add: wired_def hd_conv_nth)
  obtain st err s' where r: "callPut 0 (hd (levels ca)) k val ttl s = ((st, err), s')"
    by (metis surj_pair)
  have na: "node_at (nodes ca) 0 =
        Some \<lparr>cur = hd (levels ca), prev = None,
              next = (if Suc 0 < length (levels ca) then Some (Suc 0) else None)\<rparr>"
    using assms(1) node_at_chain [OF n, of "levels ca"] l by (simp add: wired_def)
  show ?thesis
    using assms r na not_ok_iff [of err st]
    by (simp add: Put_guard_passed writeBack_def wired_def WriteAround_def WriteThrough_def
        WriteBack_def)
qed

lemma Del_eq:
  assumes "wired ca"
  shows "cacher_Del ca (Some k) s =
           Some (case firstFail (delOn k) (rev (chain ca)) s of
                   (None, s') \<Rightarrow> (Return (CacheStatusSuccess, None), s')
                 | (Some (st, err), s') \<Rightarrow> (returnFailure (errs_Build err DelError), s'))"
  using assms delLoop_chain [of "length (levels ca)" "levels ca" k s]
  by (simp add: cacher_Del_def wired_def chain_def)

lemma IsPresent_eq:
  assumes "wired ca"
  shows "cacher_IsPresent ca (Some k) s =
           Some (case callIsPresent 0 (hd (levels ca)) k s of
                   ((st, err), s') \<Rightarrow>
                     if (st, err) = (CacheStatusSuccess, None)
                     then (Return (CacheStatusSuccess, None), s')
                     else (returnFailure (errs_Build err IsPresentError), s'))"
proof -
  have n: "0 < length (levels ca)" using assms(1) by (simp add: wired_def)
  have l: "levels ca ! 0 = hd (levels ca)"
    using assms(1) by (simp add: wired_def hd_conv_nth)
  obtain st err s' where r: "callIsPresent 0 (hd (levels ca)) k s = ((st, err), s')"
    by (metis surj_pair)
  have na: "node_at (nodes ca) 0 =
        Some \<lparr>cur = hd (levels ca), prev = None,
              next = (if Suc 0 < length (levels ca) then Some (Suc 0) else None)\<rparr>"
    using assms(1) node_at_chain [OF n, of "levels ca"] l by (simp add: wired_def)
  show ?thesis
    using assms r na not_ok_iff [of err st]
    by (simp add: cacher_IsPresent_def wired_def)
qed

lemma Get_ReadThrough_eq:
  assumes "wired ca" "readPattern ca = ReadThrough"
  shows "cacher_Get ca (Some k) now s =
       Some (case firstHit (getOn k) (chain ca) s of
               (None, s') \<Rightarrow> ((None, now, None), s')
             | (Some (x, v, ttl), s') \<Rightarrow>
                 (case firstFail (putOn k (Some v) ttl) (rev (take (fst x) (chain ca))) s' of
                    (None, s'') \<Rightarrow> ((Some v, ttl, None), s'')
                  | (Some (st, err), s'') \<Rightarrow> ((None, now, err), s'')))"
  unfolding chain_def
  using assms readThrough_chain [of 0 "levels ca" k now s]
  by (simp add: cacher_Get_def wired_def)

lemma Get_CacheAside_eq:
  assumes "wired ca" "readPattern ca = CacheAside"
  shows "cacher_Get ca (Some k) now s =
       Some (case firstHit (getOn k) (chain ca) s of
               (None, s') \<Rightarrow> ((None, now, None), s')
             | (Some (x, v, ttl), s') \<Rightarrow>
                 ((Some v, ttl, None), go (BackfillTask (fst x) k v ttl) s'))"
  unfolding chain_def
  using assms cacheAside_chain [of 0 "levels ca" k now s]
  by (simp add: cacher_Get_def wired_def CacheAside_def ReadThrough_def)

lemma testCacher_eq:
  "rp < 2 \<Longrightarrow> wp < 3 \<Longrightarrow>
   testCacher rp wp mvs =
     (Some \<lparr>nodes = chainNodes [mockCacher 0 0, mockCacher 1 0, mockCacher 2 0] 3,
            l1Cache = Some 0, lnCache = Some 2, numCaches = 3, readPattern = rp,
            writePattern = wp, maxValSize = mvs\<rparr>, None)"
  by (simp add: testCacher_def NewMultiLevelCache_validation not_le [symmetric] numeral_3_eq_3)

lemma u8_less_2: "(rp :: 8 word) < 2 \<Longrightarrow> rp = 0 \<or> rp = 1"
proof -
  assume "rp < 2"
  then have "unat rp < 2" by (simp add: word_less_nat_alt)
  then have "unat rp = 0 \<or> unat rp = 1" by linarith
  then show ?thesis by (auto simp: word_unat_eq_iff)
qed

lemma map_fst_take_chain:
  "lv \<le> length (levels ca) \<Longrightarrow> map fst (take lv (chain ca)) = [0..<lv]"
  by (simp add: take_map [symmetric] map_fst_chain take_upt)

lemma map_call_take_chain:
  "lv \<le> length (levels ca) \<Longrightarrow>
     map (\<lambda>x. (fst x, c)) (take lv (chain ca)) = map (\<lambda>j. (j, c)) [0..<lv]"
  by (simp add: map_fst_take_chain [symmetric] comp_def)

lemma map_call_rev_take_chain:
  "lv \<le> length (levels ca) \<Longrightarrow>
     map (\<lambda>x. (fst x, c)) (rev (take lv (chain ca))) = map (\<lambda>j. (j, c)) (rev [0..<lv])"
  by (simp only: rev_map [symmetric] map_call_take_chain)

lemma map_call_chain:
  "map (\<lambda>x. (fst x, c)) (chain ca) = map (\<lambda>j. (j, c)) [0..<length (levels ca)]"
  by (simp add: map_fst_chain [symmetric] comp_def)

lemma testCacher_constructed:
  "rp < 2 \<Longrightarrow> wp < 3 \<Longrightarrow>
     NewMultiLevelCache rp wp mvs [mockCacher 0 0, mockCacher 1 0, mockCacher 2 0] =
       (Some (the (fst (testCacher rp wp mvs))), None)"
  using testCacher_eq [of rp wp mvs] by (simp add: testCacher_def)

lemma testCacher_chain:
  "rp < 2 \<Longrightarrow> wp < 3 \<Longrightarrow>
     chain (the (fst (testCacher rp wp mvs))) =
       [(0, mockCacher 0 0), (1, mockCacher 1 0), (2, mockCacher 2 0)]"
  by (simp add: testCacher_eq chain_def levels_def chainNodes_def enumerate_eq_zip upt_rec
      numeral_3_eq_3)

lemmas mock_eval =
  getAt_def putAt_def delAt_def callAt_def getOn_def putOn_def delOn_def
  runGets_def runPuts_def runDels_def
  callGet_def callPut_def callDel_def callIsPresent_def
  mockCacher_def emptyMocks_def state0_def succeeded_def errs_New_def go_def

section \<open>What the synchronous traversals return\<close>

lemma u8_less_3: "(wp :: 8 word) < 3 \<Longrightarrow> wp = 0 \<or> wp = 1 \<or> wp = 2"
proof -
  assume "wp < 3"
  then have "unat wp < 3" by (simp add: word_less_nat_alt)
  then have "unat wp = 0 \<or> unat wp = 1 \<or> unat wp = 2" by linarith
  then show ?thesis by (auto simp: word_unat_eq_iff)
qed

lemma Build_Some:
  "msg \<noteq> [] \<Longrightarrow> errs_Build (Some e) msg = Return (Some (errorString (Error e @ ''; '' @ msg)))"
  by (simp add: errs_Build_def)

lemma Build_None: "msg \<noteq> [] \<Longrightarrow> errs_Build None msg = Panic"
  by (simp add: errs_Build_def)

lemma fst_callPut: "fst (callPut a c k v t s) = fst (Put c k v t (world s))"
  by (simp add: callPut_def split: prod.splits)

lemma fst_callDel: "fst (callDel a c k s) = fst (Del c k (world s))"
  by (simp add: callDel_def split: prod.splits)

lemma fst_callIsPresent: "fst (callIsPresent a c k s) = fst (IsPresent c k (world s))"
  by (simp add: callIsPresent_def split: prod.splits)

lemma snd_chain_mem: "x \<in> set (chain ca) \<Longrightarrow> snd x \<in> set (levels ca)"
  by (cases x) (auto simp: chain_def enumerate_eq_zip dest: set_zip_rightD)

lemma failed_result:
  "r \<noteq> (CacheStatusSuccess, None) \<Longrightarrow> r \<noteq> (CacheStatusFailure, None) \<Longrightarrow> \<exists>e. snd r = Some e"
  by (cases r; cases "fst r"; cases "snd r") auto

subsection \<open>Write-Through\<close>

lemma WriteThrough_all_levels:
  assumes c: "NewMultiLevelCache rp WriteThrough mvs caches = (Some ca, None)"
      and b: "withinSizeBound ca val"
      and ok: "\<forall>j<length (chain ca). succeeded (putAt (chain ca) j k val ttl s)"
  shows "cacher_Put ca (Some k) val ttl s =
           Some (Return (CacheStatusSuccess, None), runPuts (chain ca) k val ttl s) \<and>
         calls (runPuts (chain ca) k val ttl s) =
           calls s @ map (\<lambda>j. (j, PutCall k val ttl)) [0..<length (chain ca)] \<and>
         spawned (runPuts (chain ca) k val ttl s) = spawned s"
proof -
  from constructed_wired [OF c] have w: "wired ca" and wp: "writePattern ca = WriteThrough"
    by simp_all
  have ff: "firstFail (putOn k val ttl) (chain ca) s = (None, runPuts (chain ca) k val ttl s)"
    unfolding runPuts_def
    by (rule firstFail_all_ok) (use ok in \<open>simp add: putAt_def succeeded_def\<close>)
  show ?thesis
    using Put_WriteThrough_eq [OF w wp b, of k ttl s] ff
    by (simp add: calls_runPuts spawned_runPuts map_call_chain)
qed

lemma WriteThrough_first_failure:
  assumes c: "NewMultiLevelCache rp WriteThrough mvs caches = (Some ca, None)"
      and b: "withinSizeBound ca val"
      and j: "j < length (chain ca)"
      and ok: "\<forall>i<j. succeeded (putAt (chain ca) i k val ttl s)"
      and bad: "\<not> succeeded (putAt (chain ca) j k val ttl s)"
  shows "cacher_Put ca (Some k) val ttl s =
           Some (returnFailure (errs_Build (snd (fst (putAt (chain ca) j k val ttl s))) PutError),
                 snd (putAt (chain ca) j k val ttl s)) \<and>
         calls (snd (putAt (chain ca) j k val ttl s)) =
           calls s @ map (\<lambda>i. (i, PutCall k val ttl)) [0..<Suc j] \<and>
         spawned (snd (putAt (chain ca) j k val ttl s)) = spawned s"
proof -
  from constructed_wired [OF c] have w: "wired ca" and wp: "writePattern ca = WriteThrough"
    by simp_all
  have j': "j < length (levels ca)" using j by simp
  have ff: "firstFail (putOn k val ttl) (chain ca) s =
              (Some (fst (putAt (chain ca) j k val ttl s)), snd (putAt (chain ca) j k val ttl s))"
    unfolding putAt_def
    by (rule firstFail_at [OF j]) (use ok bad in \<open>simp_all add: putAt_def succeeded_def\<close>)
  have put: "cacher_Put ca (Some k) val ttl s =
           Some (returnFailure (errs_Build (snd (fst (putAt (chain ca) j k val ttl s))) PutError),
                 snd (putAt (chain ca) j k val ttl s))"
    using Put_WriteThrough_eq [OF w wp b, of k ttl s] ff
    by (cases "fst (putAt (chain ca) j k val ttl s)") simp
  have st: "snd (putAt (chain ca) j k val ttl s) =
              snd (callPut j (levels ca ! j) k val ttl (runPuts (take j (chain ca)) k val ttl s))"
    by (simp add: putAt_def callAt_def putOn_def runPuts_def chain_nth [OF j'])
  show ?thesis
    using put j'
    by (simp add: st calls_callPut spawned_callPut calls_runPuts spawned_runPuts
        map_call_take_chain)
qed

subsection \<open>Delete\<close>

lemma map_call_rev_chain:
  "map (\<lambda>x. (fst x, c)) (rev (chain ca)) = map (\<lambda>j. (j, c)) (rev [0..<length (levels ca)])"
  by (simp only: rev_map [symmetric] map_call_chain)

lemma Del_all_levels:
  assumes c: "NewMultiLevelCache rp wp mvs caches = (Some ca, None)"
      and ok: "\<forall>j<length (chain ca). succeeded (delAt (rev (chain ca)) j k s)"
  shows "cacher_Del ca (Some k) s =
           Some (Return (CacheStatusSuccess, None), runDels (rev (chain ca)) k s) \<and>
         calls (runDels (rev (chain ca)) k s) =
           calls s @ map (\<lambda>j. (j, DelCall k)) (rev [0..<length (chain ca)]) \<and>
         spawned (runDels (rev (chain ca)) k s) = spawned s"
proof -
  from constructed_wired [OF c] have w: "wired ca" by simp
  have ff: "firstFail (delOn k) (rev (chain ca)) s = (None, runDels (rev (chain ca)) k s)"
    unfolding runDels_def
    by (rule firstFail_all_ok) (use ok in \<open>simp add: delAt_def succeeded_def\<close>)
  show ?thesis
    using Del_eq [OF w, of k s] ff
    by (simp add: calls_runDels spawned_runDels map_call_rev_chain)
qed

lemma Del_first_failure:
  assumes c: "NewMultiLevelCache rp wp mvs caches = (Some ca, None)"
      and j: "j < length (chain ca)"
      and ok: "\<forall>i<j. succeeded (delAt (rev (chain ca)) i k s)"
      and bad: "\<not> succeeded (delAt (rev (chain ca)) j k s)"
  shows "cacher_Del ca (Some k) s =
           Some (returnFailure (errs_Build (snd (fst (delAt (rev (chain ca)) j k s))) DelError),
                 snd (delAt (rev (chain ca)) j k s))"
proof -
  from constructed_wired [OF c] have w: "wired ca" by simp
  have j': "j < length (rev (chain ca))" using j by simp
  have ff: "firstFail (delOn k) (rev (chain ca)) s =
              (Some (fst (delAt (rev (chain ca)) j k s)), snd (delAt (rev (chain ca)) j k s))"
    unfolding delAt_def
    by (rule firstFail_at [OF j']) (use ok bad in \<open>simp_all add: delAt_def succeeded_def\<close>)
  show ?thesis
    using Del_eq [OF w, of k s] ff
    by (cases "fst (delAt (rev (chain ca)) j k s)") simp
qed

subsection \<open>Write-Around, Write-Back, IsPresent and the backfill of Read-Through\<close>

lemma WriteAround_store:
  assumes c: "NewMultiLevelCache rp WriteAround mvs caches = (Some ca, None)"
      and b: "withinSizeBound ca val"
  shows "cacher_Put ca (Some k) val ttl s =
           Some (if succeeded (callPut (length (levels ca) - 1) (last (levels ca)) k val ttl s)
                 then Return (CacheStatusSuccess, None)
                 else returnFailure (errs_Build
                        (snd (fst (callPut (length (levels ca) - 1) (last (levels ca)) k val ttl s)))
                        PutError),
                 snd (callPut (length (levels ca) - 1) (last (levels ca)) k val ttl s)) \<and>
         calls (snd (callPut (length (levels ca) - 1) (last (levels ca)) k val ttl s)) =
           calls s @ [(length (levels ca) - 1, PutCall k val ttl)] \<and>
         spawned (snd (callPut (length (levels ca) - 1) (last (levels ca)) k val ttl s)) = spawned s"
proof -
  from constructed_wired [OF c] have w: "wired ca" and wp: "writePattern ca = WriteAround"
    by simp_all
  obtain st err s' where
    r: "callPut (length (levels ca) - 1) (last (levels ca)) k val ttl s = ((st, err), s')"
    by (metis surj_pair)
  show ?thesis
  proof (intro conjI)
    show "cacher_Put ca (Some k) val ttl s =
           Some (if succeeded (callPut (length (levels ca) - 1) (last (levels ca)) k val ttl s)
                 then Return (CacheStatusSuccess, None)
                 else returnFailure (errs_Build
                        (snd (fst (callPut (length (levels ca) - 1) (last (levels ca)) k val ttl s)))
                        PutError),
                 snd (callPut (length (levels ca) - 1) (last (levels ca)) k val ttl s))"
      using Put_WriteAround_eq [OF w wp b, of k ttl s] r by (simp add: succeeded_def)
  qed (simp_all only: calls_callPut spawned_callPut)
qed

lemma WriteBack_store:
  assumes c: "NewMultiLevelCache rp WriteBack mvs caches = (Some ca, None)"
      and b: "withinSizeBound ca val"
  shows "cacher_Put ca (Some k) val ttl s =
           Some (if succeeded (callPut 0 (hd (levels ca)) k val ttl s)
                 then (Return (CacheStatusSuccess, None),
                       go (WriteBackTask 200 0 k val ttl) (snd (callPut 0 (hd (levels ca)) k val ttl s)))
                 else (returnFailure (errs_Build
                         (snd (fst (callPut 0 (hd (levels ca)) k val ttl s))) PutError),
                       snd (callPut 0 (hd (levels ca)) k val ttl s))) \<and>
         calls (go (WriteBackTask 200 0 k val ttl) (snd (callPut 0 (hd (levels ca)) k val ttl s))) =
           calls s @ [(0, PutCall k val ttl)] \<and>
         calls (snd (callPut 0 (hd (levels ca)) k val ttl s)) = calls s @ [(0, PutCall k val ttl)]"
proof -
  from constructed_wired [OF c] have w: "wired ca" and wp: "writePattern ca = WriteBack"
    by simp_all
  obtain st err s' where r: "callPut 0 (hd (levels ca)) k val ttl s = ((st, err), s')"
    by (metis surj_pair)
  show ?thesis
  proof (intro conjI)
    show "cacher_Put ca (Some k) val ttl s =
           Some (if succeeded (callPut 0 (hd (levels ca)) k val ttl s)
                 then (Return (CacheStatusSuccess, None),
                       go (WriteBackTask 200 0 k val ttl) (snd (callPut 0 (hd (levels ca)) k val ttl s)))
                 else (returnFailure (errs_Build
                         (snd (fst (callPut 0 (hd (levels ca)) k val ttl s))) PutError),
                       snd (callPut 0 (hd (levels ca)) k val ttl s)))"
      using Put_WriteBack_eq [OF w wp b, of k ttl s] r by (simp add: succeeded_def)
  qed (simp_all add: calls_callPut go_def)
qed

lemma IsPresent_level1:
  assumes c: "NewMultiLevelCache rp wp mvs caches = (Some ca, None)"
  shows "cacher_IsPresent ca (Some k) s =
           Some (if succeeded (callIsPresent 0 (hd (levels ca)) k s)
                 then Return (CacheStatusSuccess, None)
                 else returnFailure (errs_Build
                        (snd (fst (callIsPresent 0 (hd (levels ca)) k s))) IsPresentError),
                 snd (callIsPresent 0 (hd (levels ca)) k s))"
proof -
  from constructed_wired [OF c] have w: "wired ca" by simp
  obtain st err s' where r: "callIsPresent 0 (hd (levels ca)) k s = ((st, err), s')"
    by (metis surj_pair)
  show ?thesis
    using IsPresent_eq [OF w, of k s] r by (simp add: succeeded_def)
qed

lemma ReadThrough_backfill_failure:
  assumes c: "NewMultiLevelCache ReadThrough wp mvs caches = (Some ca, None)"
      and lv: "lv < length (chain ca)"
      and miss: "\<forall>j<lv. fst (fst (getAt (chain ca) j k s)) = None"
      and hit: "getAt (chain ca) lv k s = ((Some v, ttl, e), s1)"
      and j: "j < lv"
      and ok: "\<forall>i<j. succeeded (putAt (rev (take lv (chain ca))) i k (Some v) ttl s1)"
      and bad: "\<not> succeeded (putAt (rev (take lv (chain ca))) j k (Some v) ttl s1)"
  shows "cacher_Get ca (Some k) now s =
           Some ((None, now, snd (fst (putAt (rev (take lv (chain ca))) j k (Some v) ttl s1))),
                 snd (putAt (rev (take lv (chain ca))) j k (Some v) ttl s1))"
proof -
  from constructed_wired [OF c] have w: "wired ca" and rp: "readPattern ca = ReadThrough"
    by simp_all
  have lv': "lv < length (levels ca)" using lv by simp
  have fh: "firstHit (getOn k) (chain ca) s = (Some (chain ca ! lv, v, ttl), s1)"
    by (rule firstHit_at [OF lv]) (use miss hit in \<open>simp_all add: getAt_def\<close>)
  have j': "j < length (rev (take lv (chain ca)))" using lv j by simp
  have ff: "firstFail (putOn k (Some v) ttl) (rev (take lv (chain ca))) s1 =
              (Some (fst (putAt (rev (take lv (chain ca))) j k (Some v) ttl s1)),
               snd (putAt (rev (take lv (chain ca))) j k (Some v) ttl s1))"
    unfolding putAt_def
    by (rule firstFail_at [OF j']) (use ok bad in \<open>simp_all add: putAt_def succeeded_def\<close>)
  show ?thesis
    using Get_ReadThrough_eq [OF w rp, of k now s] fh ff
    by (cases "fst (putAt (rev (take lv (chain ca))) j k (Some v) ttl s1)")
       (simp add: chain_nth [OF lv'])
qed

subsection \<open>Returning when no level reports a failure status with a nil error\<close>

lemma wrapped_failure_returns:
  assumes "r \<noteq> (CacheStatusSuccess, None)" "r \<noteq> (CacheStatusFailure, None)" "msg \<noteq> []"
  shows "\<exists>e. returnFailure (errs_Build (snd r) msg) = Return (CacheStatusFailure, Some e)"
proof -
  from failed_result [OF assms(1,2)] obtain e where "snd r = Some e" ..
  then show ?thesis using assms(3) by (simp add: Build_Some returnFailure_def)
qed

lemma firstFail_returns:
  assumes nf: "\<forall>x\<in>set xs. \<forall>s0. fst (f x s0) \<noteq> (CacheStatusFailure, None)"
      and msg: "msg \<noteq> []"
  shows "\<exists>r s'. (case firstFail f xs s of
                   (None, s') \<Rightarrow> (Return (CacheStatusSuccess, None), s')
                 | (Some (st, err), s') \<Rightarrow> (returnFailure (errs_Build err msg), s')) =
                (Return r, s')"
proof (cases "firstFail f xs s")
  case (Pair a s')
  show ?thesis
  proof (cases a)
    case None
    with Pair show ?thesis by simp
  next
    case (Some r)
    with Pair have ff: "firstFail f xs s = (Some r, s')" by simp
    from firstFail_Some [OF ff] nf have "r \<noteq> (CacheStatusSuccess, None)"
      and "r \<noteq> (CacheStatusFailure, None)" by auto
    from wrapped_failure_returns [OF this msg] obtain e where
      "returnFailure (errs_Build (snd r) msg) = Return (CacheStatusFailure, Some e)" ..
    with ff show ?thesis by (cases r) simp
  qed
qed

lemma Put_total:
  assumes c: "NewMultiLevelCache rp wp mvs caches = (Some ca, None)"
      and b: "withinSizeBound ca val"
      and nf: "\<forall>c\<in>set (levels ca). \<forall>k v t w. fst (Put c k v t w) \<noteq> (CacheStatusFailure, None)"
  shows "\<exists>r s'. cacher_Put ca (Some k) val ttl s = Some (Return r, s')"
proof -
  from constructed_wired [OF c] have w: "wired ca" and wpe: "writePattern ca = wp" and wp: "wp < 3"
    by simp_all
  have ne: "levels ca \<noteq> []" using w by (simp add: wired_def)
  have msg: "PutError \<noteq> []" by (simp add: PutError_def)
  from u8_less_3 [OF wp] consider "wp = WriteThrough" | "wp = WriteAround" | "wp = WriteBack"
    by (auto simp: WriteThrough_def WriteAround_def WriteBack_def)
  then show ?thesis
  proof cases
    case 1
    have "\<forall>x\<in>set (chain ca). \<forall>s0. fst (putOn k val ttl x s0) \<noteq> (CacheStatusFailure, None)"
      using nf by (auto simp: putOn_def fst_callPut dest: snd_chain_mem)
    from firstFail_returns [OF this msg, of s] Put_WriteThrough_eq [OF w _ b, of k ttl s] 1 wpe
    show ?thesis by simp
  next
    case 2
    let ?r = "callPut (length (levels ca) - 1) (last (levels ca)) k val ttl s"
    have "fst ?r \<noteq> (CacheStatusFailure, None)"
      using nf ne by (simp add: fst_callPut)
    then have "succeeded ?r \<or>
        (\<exists>e. returnFailure (errs_Build (snd (fst ?r)) PutError) = Return (CacheStatusFailure, Some e))"
      using wrapped_failure_returns [of "fst ?r", OF _ _ msg] by (auto simp: succeeded_def)
    with WriteAround_store [OF _ b, of rp mvs caches k ttl s] c 2 show ?thesis by auto
  next
    case 3
    let ?r = "callPut 0 (hd (levels ca)) k val ttl s"
    have "fst ?r \<noteq> (CacheStatusFailure, None)"
      using nf ne by (simp add: fst_callPut)
    then have "succeeded ?r \<or>
        (\<exists>e. returnFailure (errs_Build (snd (fst ?r)) PutError) = Return (CacheStatusFailure, Some e))"
      using wrapped_failure_returns [of "fst ?r", OF _ _ msg] by (auto simp: succeeded_def)
    with WriteBack_store [OF _ b, of rp mvs caches k ttl s] c 3 show ?thesis by auto
  qed
qed

lemma Del_total:
  assumes c: "NewMultiLevelCache rp wp mvs caches = (Some ca, None)"
      and nf: "\<forall>c\<in>set (levels ca). \<forall>k w. fst (Del c k w) \<noteq> (CacheStatusFailure, None)"
  shows "\<exists>r s'. cacher_Del ca (Some k) s = Some (Return r, s')"
proof -
  from constructed_wired [OF c] have w: "wired ca" by simp
  have msg: "DelError \<noteq> []" by (simp add: DelError_def)
  have "\<forall>x\<in>set (rev (chain ca)). \<forall>s0. fst (delOn k x s0) \<noteq> (CacheStatusFailure, None)"
    using nf by (auto simp: delOn_def fst_callDel dest: snd_chain_mem)
  from firstFail_returns [OF this msg, of s] Del_eq [OF w, of k s]
  show ?thesis by simp
qed

lemma IsPresent_total:
  assumes c: "NewMultiLevelCache rp wp mvs caches = (Some ca, None)"
      and nf: "\<forall>c\<in>set (levels ca). \<forall>k w. fst (IsPresent c k w) \<noteq> (CacheStatusFailure, None)"
  shows "\<exists>r s'. cacher_IsPresent ca (Some k) s = Some (Return r, s')"
proof -
  from constructed_wired [OF c] have w: "wired ca" by simp
  have ne: "levels ca \<noteq> []" using w by (simp add: wired_def)
  have msg: "IsPresentError \<noteq> []" by (simp add: IsPresentError_def)
  let ?r = "callIsPresent 0 (hd (levels ca)) k s"
  have "fst ?r \<noteq> (CacheStatusFailure, None)"
    using nf ne by (simp add: fst_callIsPresent)
  then have "succeeded ?r \<or>
      (\<exists>e. returnFailure (errs_Build (snd (fst ?r)) IsPresentError) = Return (CacheStatusFailure, Some e))"
    using wrapped_failure_returns [of "fst ?r", OF _ _ msg] by (auto simp: succeeded_def)
  with IsPresent_level1 [OF c, of k s] show ?thesis by auto
qed

lemma silent_not_succeeded: "silentFailure r \<Longrightarrow> \<not> succeeded r"
  by (simp add: silentFailure_def succeeded_def)

lemma silent_panics:
  "silentFailure r \<Longrightarrow> msg \<noteq> [] \<Longrightarrow> returnFailure (errs_Build (snd (fst r)) msg) = Panic"
  by (simp add: silentFailure_def Build_None returnFailure_def)

lemma testCacher_levels:
  "rp < 2 \<Longrightarrow> wp < 3 \<Longrightarrow>
     levels (the (fst (testCacher rp wp mvs))) = [mockCacher 0 0, mockCacher 1 0, mockCacher 2 0]"
  by (simp add: testCacher_eq levels_def chainNodes_def upt_rec numeral_3_eq_3)

lemma three_levels_eq:
  assumes "rp < 2" "wp < 3"
  shows "NewMultiLevelCache rp wp mvs [a, b, c] =
           (Some \<lparr>nodes = [\<lparr>cur = a, prev = None, next = Some 1\<rparr>,
                          \<lparr>cur = b, prev = Some 0, next = Some 2\<rparr>,
                          \<lparr>cur = c, prev = Some 1, next = None\<rparr>],
                  l1Cache = Some 0, lnCache = Some 2, numCaches = 3, readPattern = rp,
                  writePattern = wp, maxValSize = mvs\<rparr>, None)"
proof -
  have "\<not> 2 \<le> rp" "\<not> 3 \<le> wp" using assms by simp_all
  then show ?thesis
    by (simp add: NewMultiLevelCache_validation chainNodes_def numeral_3_eq_3)
qed

lemma three_levels:
  assumes "rp < 2" "wp < 3"
  shows "NewMultiLevelCache rp wp mvs [a, b, c] =
           (Some (the (fst (NewMultiLevelCache rp wp mvs [a, b, c]))), None)"
    and "levels (the (fst (NewMultiLevelCache rp wp mvs [a, b, c]))) = [a, b, c]"
    and "chain (the (fst (NewMultiLevelCache rp wp mvs [a, b, c]))) = [(0, a), (1, b), (2, c)]"
    and "maxValSize (the (fst (NewMultiLevelCache rp wp mvs [a, b, c]))) = mvs"
  by (simp_all add: three_levels_eq [OF assms] chain_def levels_def)

lemmas refusing_eval =
  refusingCacher_def failingCacher_def silentFailure_def cosmosAtLevel3_def

section \<open>Runs of the test orchestrator\<close>

text \<open>A level that fails with an error: the error comes back wrapped by \<open>Put\<close> and
  \<open>Del\<close>, and as it is by \<open>Get\<close>.\<close>

lemma WriteThrough_failing_level:
  "cacher_Put (the (fst (withFailingLevel 1 ReadThrough WriteThrough)))
       (Some (NewCacheKey ''metamorphosis'')) (Some ''franzkafka'') 5 emptyMocks =
     Some (Return (CacheStatusFailure, Some (errorString ''disk full; Put error'')),
           \<lparr>world = [[(''metamorphosis'', Some ''franzkafka'')], [], []],
            calls = [(0, PutCall (CacheKey ''metamorphosis'') (Some ''franzkafka'') 5),
                     (1, PutCall (CacheKey ''metamorphosis'') (Some ''franzkafka'') 5)],
            spawned = []\<rparr>)"
  by code_simp

lemma Del_failing_level:
  "cacher_Del (the (fst (withFailingLevel 1 ReadThrough WriteThrough)))
       (Some (NewCacheKey ''cosmos'')) cosmosAtLevel3 =
     Some (Return (CacheStatusFailure, Some (errorString ''disk full; Del error'')),
           \<lparr>world = [[], [], []],
            calls = [(2, DelCall (CacheKey ''cosmos'')), (1, DelCall (CacheKey ''cosmos''))],
            spawned = []\<rparr>)"
  by code_simp

lemma ReadThrough_failing_backfill:
  "cacher_Get (the (fst (withFailingLevel 0 ReadThrough WriteAround)))
       (Some (NewCacheKey ''cosmos'')) 9 cosmosAtLevel3 =
     Some ((None, 9, Some (errorString ''disk full'')),
           \<lparr>world = [[], [(''cosmos'', Some ''carlsagan'')], [(''cosmos'', Some ''carlsagan'')]],
            calls = [(0, GetCall (CacheKey ''cosmos'')), (1, GetCall (CacheKey ''cosmos'')),
                     (2, GetCall (CacheKey ''cosmos'')),
                     (1, PutCall (CacheKey ''cosmos'') (Some ''carlsagan'') 0),
                     (0, PutCall (CacheKey ''cosmos'') (Some ''carlsagan'') 0)],
            spawned = []\<rparr>)"
  by code_simp

text \<open>The three Read-Through cases of the package's test table.\<close>

lemma TestCacher_WriteThrough:
  "(case cacher_Put (the (fst (testCacher ReadThrough WriteThrough 100)))
           (Some (NewCacheKey ''metamorphosis'')) (Some ''franzkafka'') 5 emptyMocks of
      None \<Rightarrow> False
    | Some (r, s) \<Rightarrow>
        r = Return (CacheStatusSuccess, None) \<and>
        world s = [[(''metamorphosis'', Some ''franzkafka'')],
                   [(''metamorphosis'', Some ''franzkafka'')],
                   [(''metamorphosis'', Some ''franzkafka'')]] \<and>
        spawned s = [] \<and>
        map_option fst (cacher_Get (the (fst (testCacher ReadThrough WriteThrough 100)))
                          (Some (NewCacheKey ''metamorphosis'')) 9 s) =
          Some (Some ''franzkafka'', 0, None))"
  by code_simp

lemma TestCacher_WriteAround:
  "(case cacher_Put (the (fst (testCacher ReadThrough WriteAround 100)))
           (Some (NewCacheKey ''cosmos'')) (Some ''carlsagan'') 5 emptyMocks of
      None \<Rightarrow> False
    | Some (r, s) \<Rightarrow>
        r = Return (CacheStatusSuccess, None) \<and>
        world s = [[], [], [(''cosmos'', Some ''carlsagan'')]] \<and>
        spawned s = [] \<and>
        map_option fst (cacher_Get (the (fst (testCacher ReadThrough WriteAround 100)))
                          (Some (NewCacheKey ''cosmos'')) 9 s) =
          Some (Some ''carlsagan'', 0, None))"
  by code_simp

lemma TestCacher_WriteBack:
  "(case cacher_Put (the (fst (testCacher ReadThrough WriteBack 100)))
           (Some (NewCacheKey ''thesirensoftitan'')) (Some ''kurtvonnegut'') 5 emptyMocks of
      None \<Rightarrow> False
    | Some (r, s) \<Rightarrow>
        r = Return (CacheStatusSuccess, None) \<and>
        world s = [[(''thesirensoftitan'', Some ''kurtvonnegut'')], [], []] \<and>
        spawned s = [WriteBackTask 200 0 (CacheKey ''thesirensoftitan'') (Some ''kurtvonnegut'') 5] \<and>
        map_option fst (cacher_Get (the (fst (testCacher ReadThrough WriteBack 100)))
                          (Some (NewCacheKey ''thesirensoftitan'')) 9 s) =
          Some (Some ''kurtvonnegut'', 0, None))"
  by code_simp

section \<open>Construction\<close>

text \<open>
  C2. Construction is to fail with "max level exceeded" for every chain of more
  than 5 levels. \<open>NewMultiLevelCache\<close> converts the number of backends to
  \<open>uint8\<close> before it checks it, so the check sees the count modulo 256: called
  with 257 backends it reports no error and returns an orchestrator of one level,
  in both revisions, and called with 256 backends it fails with "no workable
  cache". (For fewer than 256 backends \<open>NewMultiLevelCache_validation\<close> gives
  each of the five outcomes of the specification.)
\<close>

theorem NewMultiLevelCache_257_levels:
  "NewMultiLevelCache ReadThrough WriteThrough 100 (replicate 257 (mockCacher 0 0)) =
     (Some \<lparr>nodes = [\<lparr>cur = mockCacher 0 0, prev = None, next = None\<rparr>], l1Cache = Some 0,
            lnCache = Some 0, numCaches = 1, readPattern = ReadThrough,
            writePattern = WriteThrough, maxValSize = 100\<rparr>, None) \<and>
   NewMultiLevelCache_inline ReadThrough WriteThrough 100 (replicate 257 (mockCacher 0 0)) =
     (Some \<lparr>nodes = [\<lparr>cur = mockCacher 0 0, prev = None, next = None\<rparr>], l1Cache = Some 0,
            lnCache = Some 0, numCaches = 1, readPattern = ReadThrough,
            writePattern = WriteThrough, maxValSize = 100\<rparr>, None) \<and>
   NewMultiLevelCache ReadThrough WriteThrough 100 (replicate 256 (mockCacher 0 0)) =
     (None, Some (errorString ''No workable cache found''))"
  using NewMultiLevelCache_valid [of "replicate 257 (mockCacher 0 0)" ReadThrough WriteThrough 100]
    NewMultiLevelCache_inline_eq [of "replicate 257 (mockCacher 0 0)" ReadThrough WriteThrough 100]
    NewMultiLevelCache_invalid [of "replicate 256 (mockCacher 0 0)" ReadThrough WriteThrough
      "errorString ''No workable cache found''" 100]
  by (simp add: validate_cases ReadThrough_def WriteThrough_def chainNodes_def)

section \<open>Put: the guards\<close>

text \<open>
  C6. Whatever the write policy, \<open>Put\<close> with a nil key returns the failure
  status with the error "Put error", and \<open>Put\<close> with a key and a value longer
  than \<open>maxValSize\<close> returns the failure status with the error "Max val len
  exceeded". In both cases the state is returned as it was: no call to a level
  has been added, no backend has changed and no goroutine has been started.
  (The nil-key guard comes first: a nil key with an oversized value is a
  "Put error".)
\<close>

theorem Put_rejected_before_any_level:
  "cacher_Put ca None val ttl s =
     Some (Return (CacheStatusFailure, Some (errorString ''Put error'')), s) \<and>
   (maxValSize ca < int (length v) \<longrightarrow>
      cacher_Put ca (Some k) (Some v) ttl s =
        Some (Return (CacheStatusFailure, Some (errorString ''Max val len exceeded'')), s))"
  by (simp add: cacher_Put_def errs_New_def PutError_def MaxValLenExceeded_def)

theorem Put_rejected_before_any_level_witness:
  "cacher_Put (the (fst (testCacher ReadThrough WriteBack 5))) None (Some ''kafka'') 0 emptyMocks =
     Some (Return (CacheStatusFailure, Some (errorString ''Put error'')), emptyMocks) \<and>
   maxValSize (the (fst (testCacher ReadThrough WriteBack 5))) < int (length ''franzkafka'') \<and>
   cacher_Put (the (fst (testCacher ReadThrough WriteBack 5))) (Some (CacheKey ''metamorphosis''))
       (Some ''franzkafka'') 0 emptyMocks =
     Some (Return (CacheStatusFailure, Some (errorString ''Max val len exceeded'')), emptyMocks)"
  using Put_rejected_before_any_level [of "the (fst (testCacher ReadThrough WriteBack 5))"
      "Some ''kafka''" 0 emptyMocks "''franzkafka''" "CacheKey ''metamorphosis''"]
  by (simp add: testCacher_eq ReadThrough_def WriteBack_def)

section \<open>Get\<close>

text \<open>
  C8. For an orchestrator that \<open>NewMultiLevelCache\<close> returned (its read policy
  is then Read-Through or Cache-Aside), \<open>Get\<close> with a key, when every level
  in turn returns a nil value (whatever error it returns with it), returns a nil
  value, the time of the call and a nil error. It has called \<open>Get\<close> on the
  levels 1 to N in that order and nothing else, and has started no goroutine.
\<close>

theorem Get_miss:
  assumes c: "NewMultiLevelCache rp wp mvs caches = (Some ca, None)"
      and miss: "\<forall>j<length (chain ca). fst (fst (getAt (chain ca) j k s)) = None"
  shows "(rp = ReadThrough \<or> rp = CacheAside) \<and>
         cacher_Get ca (Some k) now s = Some ((None, now, None), runGets (chain ca) k s) \<and>
         calls (runGets (chain ca) k s) =
           calls s @ map (\<lambda>j. (j, GetCall k)) [0..<length (chain ca)] \<and>
         spawned (runGets (chain ca) k s) = spawned s"
proof -
  from constructed_wired [OF c] have w: "wired ca" and rp: "readPattern ca = rp" and lt: "rp < 2"
    by simp_all
  from lt have pol: "rp = ReadThrough \<or> rp = CacheAside"
    using u8_less_2 by (simp add: ReadThrough_def CacheAside_def)
  have fh: "firstHit (getOn k) (chain ca) s = (None, runGets (chain ca) k s)"
    unfolding runGets_def
    by (rule firstHit_none) (use miss in \<open>simp add: getAt_def\<close>)
  have get: "cacher_Get ca (Some k) now s = Some ((None, now, None), runGets (chain ca) k s)"
  proof (cases "rp = ReadThrough")
    case True
    with rp have "readPattern ca = ReadThrough" by simp
    from Get_ReadThrough_eq [OF w this, of k now s] fh show ?thesis by simp
  next
    case False
    with pol rp have "readPattern ca = CacheAside" by simp
    from Get_CacheAside_eq [OF w this, of k now s] fh show ?thesis by simp
  qed
  have tr: "calls (runGets (chain ca) k s) =
           calls s @ map (\<lambda>j. (j, GetCall k)) [0..<length (chain ca)]"
    by (simp only: calls_runGets map_call_chain chain_length)
  from pol get tr show ?thesis by (simp add: spawned_runGets)
qed

theorem Get_miss_witness:
  "cacher_Get (the (fst (testCacher CacheAside WriteThrough 100))) (Some (CacheKey ''cosmos'')) 9
      emptyMocks =
     Some ((None, 9, None),
           \<lparr>world = [[], [], []],
            calls = [(0, GetCall (CacheKey ''cosmos'')), (1, GetCall (CacheKey ''cosmos'')),
                     (2, GetCall (CacheKey ''cosmos''))],
            spawned = []\<rparr>)"
proof -
  let ?ca = "the (fst (testCacher CacheAside WriteThrough 100))"
  have p: "CacheAside < 2" "WriteThrough < 3" by (simp_all add: CacheAside_def WriteThrough_def)
  note c = testCacher_constructed [OF p, of 100]
  note ch = testCacher_chain [OF p, of 100]
  have miss: "\<forall>j<length (chain ?ca). fst (fst (getAt (chain ?ca) j (CacheKey ''cosmos'') emptyMocks)) = None"
    by (simp add: ch All_less_Suc mock_eval)
  from Get_miss [OF c miss, of 9] show ?thesis
    by (simp add: ch mock_eval)
qed

text \<open>
  C7. Under Read-Through, when the levels before level \<open>lv + 1\<close> return a nil
  value, that level returns the value \<open>v\<close> with expiry \<open>ttl\<close>, and each
  \<open>Put\<close> of \<open>v\<close> and \<open>ttl\<close> into the nearer levels, made from the
  nearest to the hit down to level 1 and each on the state the previous one left,
  succeeds, then \<open>Get\<close> returns \<open>v\<close>, \<open>ttl\<close> and a nil error. Its calls
  are \<open>Get\<close> on levels 1 to \<open>lv + 1\<close>, then \<open>Put\<close> on levels \<open>lv\<close>
  down to 1; no farther level is fetched and no goroutine is started.
\<close>

theorem Get_ReadThrough_hit:
  assumes c: "NewMultiLevelCache ReadThrough wp mvs caches = (Some ca, None)"
      and lv: "lv < length (chain ca)"
      and miss: "\<forall>j<lv. fst (fst (getAt (chain ca) j k s)) = None"
      and hit: "getAt (chain ca) lv k s = ((Some v, ttl, e), s1)"
      and fill: "\<forall>j<lv. succeeded (putAt (rev (take lv (chain ca))) j k (Some v) ttl s1)"
  shows "cacher_Get ca (Some k) now s =
           Some ((Some v, ttl, None), runPuts (rev (take lv (chain ca))) k (Some v) ttl s1) \<and>
         calls (runPuts (rev (take lv (chain ca))) k (Some v) ttl s1) =
           calls s @ map (\<lambda>j. (j, GetCall k)) [0..<Suc lv]
                   @ map (\<lambda>j. (j, PutCall k (Some v) ttl)) (rev [0..<lv]) \<and>
         spawned (runPuts (rev (take lv (chain ca))) k (Some v) ttl s1) = spawned s"
proof -
  from constructed_wired [OF c] have w: "wired ca" and rp: "readPattern ca = ReadThrough"
    by simp_all
  have lv': "lv < length (levels ca)" using lv by simp
  have fh: "firstHit (getOn k) (chain ca) s = (Some (chain ca ! lv, v, ttl), s1)"
    by (rule firstHit_at [OF lv]) (use miss hit in \<open>simp_all add: getAt_def\<close>)
  have len: "length (rev (take lv (chain ca))) = lv" using lv by simp
  have ff: "firstFail (putOn k (Some v) ttl) (rev (take lv (chain ca))) s1 =
              (None, runPuts (rev (take lv (chain ca))) k (Some v) ttl s1)"
    unfolding runPuts_def
    by (rule firstFail_all_ok) (use fill len in \<open>simp add: putAt_def succeeded_def\<close>)
  have get: "cacher_Get ca (Some k) now s =
           Some ((Some v, ttl, None), runPuts (rev (take lv (chain ca))) k (Some v) ttl s1)"
    using Get_ReadThrough_eq [OF w rp, of k now s] fh ff by (simp add: chain_nth [OF lv'])
  have s1: "s1 = snd (callGet lv (levels ca ! lv) k (runGets (take lv (chain ca)) k s))"
    using hit by (simp add: getAt_def callAt_def getOn_def runGets_def chain_nth [OF lv'])
  have c1: "calls s1 = calls s @ map (\<lambda>j. (j, GetCall k)) [0..<Suc lv]"
    using lv'
    by (simp add: s1 calls_callGet calls_runGets map_call_take_chain)
  have sp1: "spawned s1 = spawned s"
    by (simp add: s1 spawned_callGet spawned_runGets)
  have tr: "calls (runPuts (rev (take lv (chain ca))) k (Some v) ttl s1) =
           calls s @ map (\<lambda>j. (j, GetCall k)) [0..<Suc lv]
                   @ map (\<lambda>j. (j, PutCall k (Some v) ttl)) (rev [0..<lv])"
    using lv'
    by (simp add: calls_runPuts c1 map_call_rev_take_chain)
  from get tr sp1 show ?thesis by (simp add: spawned_runPuts)
qed

theorem Get_ReadThrough_hit_witness:
  "cacher_Get (the (fst (testCacher ReadThrough WriteAround 100))) (Some (CacheKey ''cosmos'')) 9
      cosmosAtLevel3 =
     Some ((Some ''carlsagan'', 0, None),
           \<lparr>world = [[(''cosmos'', Some ''carlsagan'')], [(''cosmos'', Some ''carlsagan'')],
                     [(''cosmos'', Some ''carlsagan'')]],
            calls = [(0, GetCall (CacheKey ''cosmos'')), (1, GetCall (CacheKey ''cosmos'')),
                     (2, GetCall (CacheKey ''cosmos'')),
                     (1, PutCall (CacheKey ''cosmos'') (Some ''carlsagan'') 0),
                     (0, PutCall (CacheKey ''cosmos'') (Some ''carlsagan'') 0)],
            spawned = []\<rparr>)"
proof -
  let ?ca = "the (fst (testCacher ReadThrough WriteAround 100))"
  let ?k = "CacheKey ''cosmos''"
  let ?s1 = "\<lparr>world = [[], [], [(''cosmos'', Some ''carlsagan'')]],
              calls = [(0, GetCall ?k), (1, GetCall ?k), (2, GetCall ?k)],
              spawned = []\<rparr> :: mockWorld state"
  have p: "ReadThrough < 2" "WriteAround < 3" by (simp_all add: ReadThrough_def WriteAround_def)
  note c = testCacher_constructed [OF p, of 100]
  note ch = testCacher_chain [OF p, of 100]
  have lv: "2 < length (chain ?ca)" by (simp add: ch)
  have miss: "\<forall>j<2. fst (fst (getAt (chain ?ca) j ?k cosmosAtLevel3)) = None"
    by (simp add: ch All_less_Suc numeral_2_eq_2 mock_eval cosmosAtLevel3_def)
  have hit: "getAt (chain ?ca) 2 ?k cosmosAtLevel3 = ((Some ''carlsagan'', 0, None), ?s1)"
    by (simp add: ch numeral_2_eq_2 mock_eval cosmosAtLevel3_def)
  have fill: "\<forall>j<2. succeeded (putAt (rev (take 2 (chain ?ca))) j ?k (Some ''carlsagan'') 0 ?s1)"
    by (simp add: ch All_less_Suc numeral_2_eq_2 mock_eval)
  from Get_ReadThrough_hit [OF c lv miss hit fill, of 9] show ?thesis
    by (simp add: ch numeral_2_eq_2 mock_eval)
qed

text \<open>
  C3. Under Read-Through a backfill write that reports the failure status is to
  make \<open>Get\<close> report that failure. \<open>Get\<close> returns the error of the
  backfill as it is, so when level 1 refuses the backfill with the failure status
  and a nil error the caller gets a nil value and a nil error: the answer of a
  miss (second equation), although level 3 held the value and level 2 has been
  written. (\<open>ReadThrough_backfill_failure\<close> is the general statement: \<open>Get\<close>
  stops at the first backfill that does not succeed and returns a nil value with
  that call's error.)
\<close>

theorem ReadThrough_refused_backfill:
  "snd (withRefusingLevel 0 ReadThrough WriteAround) = None \<and>
   cacher_Get (the (fst (withRefusingLevel 0 ReadThrough WriteAround)))
       (Some (CacheKey ''cosmos'')) 9 cosmosAtLevel3 =
     Some ((None, 9, None),
           \<lparr>world = [[], [(''cosmos'', Some ''carlsagan'')], [(''cosmos'', Some ''carlsagan'')]],
            calls = [(0, GetCall (CacheKey ''cosmos'')), (1, GetCall (CacheKey ''cosmos'')),
                     (2, GetCall (CacheKey ''cosmos'')),
                     (1, PutCall (CacheKey ''cosmos'') (Some ''carlsagan'') 0),
                     (0, PutCall (CacheKey ''cosmos'') (Some ''carlsagan'') 0)],
            spawned = []\<rparr>) \<and>
   cacher_Get (the (fst (withRefusingLevel 0 ReadThrough WriteAround)))
       (Some (CacheKey ''cosmos'')) 9 emptyMocks =
     Some ((None, 9, None),
           \<lparr>world = [[], [], []],
            calls = [(0, GetCall (CacheKey ''cosmos'')), (1, GetCall (CacheKey ''cosmos'')),
                     (2, GetCall (CacheKey ''cosmos''))],
            spawned = []\<rparr>)"
  by code_simp

section \<open>Put and Del: a level that fails\<close>

text \<open>
  C1. Under Write-Through the first level that reports the failure status is to
  make \<open>Put\<close> return that failure. When level 2 of three refuses the write
  with the failure status and a nil error, \<open>Put\<close> panics in \<open>errs.Build\<close>
  instead of returning; level 1 has been written and level 3 has not been called.
  (\<open>WriteThrough_all_levels\<close> and \<open>WriteThrough_first_failure\<close> are the general
  statements: success after all levels in order, and the wrapped error of the
  first level that fails with an error.)
\<close>

theorem WriteThrough_refused_write:
  "snd (withRefusingLevel 1 ReadThrough WriteThrough) = None \<and>
   cacher_Put (the (fst (withRefusingLevel 1 ReadThrough WriteThrough)))
       (Some (CacheKey ''metamorphosis'')) (Some ''franzkafka'') 5 emptyMocks =
     Some (Panic,
           \<lparr>world = [[(''metamorphosis'', Some ''franzkafka'')], [], []],
            calls = [(0, PutCall (CacheKey ''metamorphosis'') (Some ''franzkafka'') 5),
                     (1, PutCall (CacheKey ''metamorphosis'') (Some ''franzkafka'') 5)],
            spawned = []\<rparr>)"
  by code_simp

text \<open>
  C4. Under Write-Around \<open>Put\<close> is to return the failure of level N when that
  write does not succeed. When level 3 of three refuses the write with the failure
  status and a nil error, \<open>Put\<close> panics in \<open>errs.Build\<close>; levels 1 and 2 have
  not been called. (\<open>WriteAround_store\<close> is the general statement.)
\<close>

theorem WriteAround_refused_write:
  "snd (withRefusingLevel 2 ReadThrough WriteAround) = None \<and>
   cacher_Put (the (fst (withRefusingLevel 2 ReadThrough WriteAround)))
       (Some (CacheKey ''cosmos'')) (Some ''carlsagan'') 5 emptyMocks =
     Some (Panic,
           \<lparr>world = [[], [], []],
            calls = [(2, PutCall (CacheKey ''cosmos'') (Some ''carlsagan'') 5)],
            spawned = []\<rparr>)"
  by code_simp

text \<open>
  C5. Under Write-Back \<open>Put\<close> is to return the failure of level 1 when that
  write does not succeed. When level 1 refuses the write with the failure status and
  a nil error, \<open>Put\<close> panics in \<open>errs.Build\<close>; no other level has been called
  and no goroutine has been started. (\<open>WriteBack_store\<close> is the general
  statement.)
\<close>

theorem WriteBack_refused_write:
  "snd (withRefusingLevel 0 ReadThrough WriteBack) = None \<and>
   cacher_Put (the (fst (withRefusingLevel 0 ReadThrough WriteBack)))
       (Some (CacheKey ''thesirensoftitan'')) (Some ''kurtvonnegut'') 5 emptyMocks =
     Some (Panic,
           \<lparr>world = [[], [], []],
            calls = [(0, PutCall (CacheKey ''thesirensoftitan'') (Some ''kurtvonnegut'') 5)],
            spawned = []\<rparr>)"
  by code_simp

text \<open>
  C9. \<open>Del\<close> is to return the failure of the first level, from level N down,
  whose delete does not succeed. When level 2 of three refuses the delete with the
  failure status and a nil error, \<open>Del\<close> panics in \<open>errs.Build\<close>; level 3 has
  been deleted from and level 1 has not been called. (\<open>Del_all_levels\<close> and
  \<open>Del_first_failure\<close> are the general statements.)
\<close>

theorem Del_refused_delete:
  "snd (withRefusingLevel 1 ReadThrough WriteThrough) = None \<and>
   cacher_Del (the (fst (withRefusingLevel 1 ReadThrough WriteThrough)))
       (Some (CacheKey ''cosmos'')) cosmosAtLevel3 =
     Some (Panic,
           \<lparr>world = [[], [], []],
            calls = [(2, DelCall (CacheKey ''cosmos'')), (1, DelCall (CacheKey ''cosmos''))],
            spawned = []\<rparr>)"
  by code_simp

section \<open>The nil error of a failure status\<close>

text \<open>
  C10. \<open>errs.Build\<close> calls \<open>Error()\<close> on the error it is given, which
  panics on a nil error. For an orchestrator that \<open>NewMultiLevelCache\<close>
  returned, a key and a value that passes the size guard:
  \<^item> when no level's \<open>Put\<close> (\<open>Del\<close>, \<open>IsPresent\<close>) ever reports the failure
    status together with a nil error, \<open>Put\<close> under each write policy
    (\<open>Del\<close>, \<open>IsPresent\<close>) returns;
  \<^item> when the first call of the traversal that does not succeed (the one call of
    Write-Around, Write-Back and \<open>IsPresent\<close>) reports the failure status
    together with a nil error, the operation panics, in the state that call left.
\<close>

theorem failure_status_with_nil_error:
  assumes c: "NewMultiLevelCache rp wp mvs caches = (Some ca, None)"
      and b: "withinSizeBound ca val"
  shows "errs_Build None PutError = Panic \<and> errs_Build None DelError = Panic \<and>
         errs_Build None IsPresentError = Panic \<and>
         ((\<forall>c\<in>set (levels ca). \<forall>k v t w. fst (Put c k v t w) \<noteq> (CacheStatusFailure, None)) \<longrightarrow>
            (\<exists>r s'. cacher_Put ca (Some k) val ttl s = Some (Return r, s'))) \<and>
         ((\<forall>c\<in>set (levels ca). \<forall>k w. fst (Del c k w) \<noteq> (CacheStatusFailure, None)) \<longrightarrow>
            (\<exists>r s'. cacher_Del ca (Some k) s = Some (Return r, s'))) \<and>
         ((\<forall>c\<in>set (levels ca). \<forall>k w. fst (IsPresent c k w) \<noteq> (CacheStatusFailure, None)) \<longrightarrow>
            (\<exists>r s'. cacher_IsPresent ca (Some k) s = Some (Return r, s'))) \<and>
         (wp = WriteThrough \<longrightarrow>
            (\<forall>j<length (chain ca).
               (\<forall>i<j. succeeded (putAt (chain ca) i k val ttl s)) \<longrightarrow>
               silentFailure (putAt (chain ca) j k val ttl s) \<longrightarrow>
               cacher_Put ca (Some k) val ttl s =
                 Some (Panic, snd (putAt (chain ca) j k val ttl s)))) \<and>
         (wp = WriteAround \<longrightarrow>
            silentFailure (callPut (length (levels ca) - 1) (last (levels ca)) k val ttl s) \<longrightarrow>
            cacher_Put ca (Some k) val ttl s =
              Some (Panic, snd (callPut (length (levels ca) - 1) (last (levels ca)) k val ttl s))) \<and>
         (wp = WriteBack \<longrightarrow>
            silentFailure (callPut 0 (hd (levels ca)) k val ttl s) \<longrightarrow>
            cacher_Put ca (Some k) val ttl s =
              Some (Panic, snd (callPut 0 (hd (levels ca)) k val ttl s))) \<and>
         (\<forall>j<length (chain ca).
            (\<forall>i<j. succeeded (delAt (rev (chain ca)) i k s)) \<longrightarrow>
            silentFailure (delAt (rev (chain ca)) j k s) \<longrightarrow>
            cacher_Del ca (Some k) s = Some (Panic, snd (delAt (rev (chain ca)) j k s))) \<and>
         (silentFailure (callIsPresent 0 (hd (levels ca)) k s) \<longrightarrow>
            cacher_IsPresent ca (Some k) s =
              Some (Panic, snd (callIsPresent 0 (hd (levels ca)) k s)))"
proof -
  have pm: "PutError \<noteq> []" and dm: "DelError \<noteq> []" and im: "IsPresentError \<noteq> []"
    by (simp_all add: PutError_def DelError_def IsPresentError_def)
  have build: "errs_Build None PutError = Panic \<and> errs_Build None DelError = Panic \<and>
         errs_Build None IsPresentError = Panic"
    using pm dm im by (simp add: Build_None)
  have wt: "wp = WriteThrough \<longrightarrow>
            (\<forall>j<length (chain ca).
               (\<forall>i<j. succeeded (putAt (chain ca) i k val ttl s)) \<longrightarrow>
               silentFailure (putAt (chain ca) j k val ttl s) \<longrightarrow>
               cacher_Put ca (Some k) val ttl s =
                 Some (Panic, snd (putAt (chain ca) j k val ttl s)))"
  proof (intro impI allI)
    fix j
    assume wp: "wp = WriteThrough" and j: "j < length (chain ca)"
      and ok: "\<forall>i<j. succeeded (putAt (chain ca) i k val ttl s)"
      and sf: "silentFailure (putAt (chain ca) j k val ttl s)"
    from c wp have c': "NewMultiLevelCache rp WriteThrough mvs caches = (Some ca, None)" by simp
    from WriteThrough_first_failure [OF c' b j ok silent_not_succeeded [OF sf]]
    show "cacher_Put ca (Some k) val ttl s = Some (Panic, snd (putAt (chain ca) j k val ttl s))"
      by (simp add: silent_panics [OF sf pm])
  qed
  have wa: "wp = WriteAround \<longrightarrow>
            silentFailure (callPut (length (levels ca) - 1) (last (levels ca)) k val ttl s) \<longrightarrow>
            cacher_Put ca (Some k) val ttl s =
              Some (Panic, snd (callPut (length (levels ca) - 1) (last (levels ca)) k val ttl s))"
  proof (intro impI)
    assume wp: "wp = WriteAround"
      and sf: "silentFailure (callPut (length (levels ca) - 1) (last (levels ca)) k val ttl s)"
    from c wp have c': "NewMultiLevelCache rp WriteAround mvs caches = (Some ca, None)" by simp
    from WriteAround_store [OF c' b, of k ttl s]
    show "cacher_Put ca (Some k) val ttl s =
              Some (Panic, snd (callPut (length (levels ca) - 1) (last (levels ca)) k val ttl s))"
      by (simp only: silent_not_succeeded [OF sf] silent_panics [OF sf pm] if_False)
  qed
  have wb: "wp = WriteBack \<longrightarrow>
            silentFailure (callPut 0 (hd (levels ca)) k val ttl s) \<longrightarrow>
            cacher_Put ca (Some k) val ttl s =
              Some (Panic, snd (callPut 0 (hd (levels ca)) k val ttl s))"
  proof (intro impI)
    assume wp: "wp = WriteBack"
      and sf: "silentFailure (callPut 0 (hd (levels ca)) k val ttl s)"
    from c wp have c': "NewMultiLevelCache rp WriteBack mvs caches = (Some ca, None)" by simp
    from WriteBack_store [OF c' b, of k ttl s]
    show "cacher_Put ca (Some k) val ttl s =
              Some (Panic, snd (callPut 0 (hd (levels ca)) k val ttl s))"
      by (simp only: silent_not_succeeded [OF sf] silent_panics [OF sf pm] if_False)
  qed
  have dl: "\<forall>j<length (chain ca).
            (\<forall>i<j. succeeded (delAt (rev (chain ca)) i k s)) \<longrightarrow>
            silentFailure (delAt (rev (chain ca)) j k s) \<longrightarrow>
            cacher_Del ca (Some k) s = Some (Panic, snd (delAt (rev (chain ca)) j k s))"
  proof (intro impI allI)
    fix j
    assume j: "j < length (chain ca)"
      and ok: "\<forall>i<j. succeeded (delAt (rev (chain ca)) i k s)"
      and sf: "silentFailure (delAt (rev (chain ca)) j k s)"
    from Del_first_failure [OF c j ok silent_not_succeeded [OF sf]]
    show "cacher_Del ca (Some k) s = Some (Panic, snd (delAt (rev (chain ca)) j k s))"
      by (simp add: silent_panics [OF sf dm])
  qed
  have ip: "silentFailure (callIsPresent 0 (hd (levels ca)) k s) \<longrightarrow>
            cacher_IsPresent ca (Some k) s =
              Some (Panic, snd (callIsPresent 0 (hd (levels ca)) k s))"
  proof (intro impI)
    assume sf: "silentFailure (callIsPresent 0 (hd (levels ca)) k s)"
    from IsPresent_level1 [OF c, of k s]
    show "cacher_IsPresent ca (Some k) s =
              Some (Panic, snd (callIsPresent 0 (hd (levels ca)) k s))"
      by (simp only: silent_not_succeeded [OF sf] silent_panics [OF sf im] if_False)
  qed
  from build Put_total [OF c b, of k ttl s] Del_total [OF c, of k s] IsPresent_total [OF c, of k s]
    wt wa wb dl ip
  show ?thesis by blast
qed

theorem failure_status_with_nil_error_witness:
  "errs_Build None PutError = Panic \<and>
   (\<exists>r s'. cacher_Put (the (fst (testCacher ReadThrough WriteThrough 100)))
              (Some (CacheKey ''metamorphosis'')) (Some ''franzkafka'') 5 emptyMocks =
            Some (Return r, s')) \<and>
   (\<exists>r s'. cacher_Del (the (fst (testCacher ReadThrough WriteThrough 100)))
              (Some (CacheKey ''metamorphosis'')) emptyMocks =
            Some (Return r, s')) \<and>
   (\<exists>r s'. cacher_IsPresent (the (fst allLevelsFailing))
              (Some (CacheKey ''metamorphosis'')) emptyMocks =
            Some (Return r, s')) \<and>
   cacher_IsPresent (the (fst (testCacher ReadThrough WriteThrough 100)))
       (Some (CacheKey ''metamorphosis'')) emptyMocks =
     Some (Panic, \<lparr>world = [[], [], []],
                   calls = [(0, IsPresentCall (CacheKey ''metamorphosis''))],
                   spawned = []\<rparr>) \<and>
   cacher_Put (the (fst (withRefusingLevel 1 ReadThrough WriteThrough)))
       (Some (CacheKey ''metamorphosis'')) (Some ''franzkafka'') 5 emptyMocks =
     Some (Panic,
           \<lparr>world = [[(''metamorphosis'', Some ''franzkafka'')], [], []],
            calls = [(0, PutCall (CacheKey ''metamorphosis'') (Some ''franzkafka'') 5),
                     (1, PutCall (CacheKey ''metamorphosis'') (Some ''franzkafka'') 5)],
            spawned = []\<rparr>) \<and>
   cacher_Put (the (fst (withRefusingLevel 2 ReadThrough WriteAround)))
       (Some (CacheKey ''metamorphosis'')) (Some ''franzkafka'') 5 emptyMocks =
     Some (Panic,
           \<lparr>world = [[], [], []],
            calls = [(2, PutCall (CacheKey ''metamorphosis'') (Some ''franzkafka'') 5)],
            spawned = []\<rparr>) \<and>
   cacher_Put (the (fst (withRefusingLevel 0 ReadThrough WriteBack)))
       (Some (CacheKey ''metamorphosis'')) (Some ''franzkafka'') 5 emptyMocks =
     Some (Panic,
           \<lparr>world = [[], [], []],
            calls = [(0, PutCall (CacheKey ''metamorphosis'') (Some ''franzkafka'') 5)],
            spawned = []\<rparr>) \<and>
   cacher_Del (the (fst (withRefusingLevel 1 ReadThrough WriteThrough)))
       (Some (CacheKey ''cosmos'')) cosmosAtLevel3 =
     Some (Panic,
           \<lparr>world = [[], [], []],
            calls = [(2, DelCall (CacheKey ''cosmos'')), (1, DelCall (CacheKey ''cosmos''))],
            spawned = []\<rparr>)"
proof -
  let ?k = "CacheKey ''metamorphosis''"
  let ?v = "Some ''franzkafka''"
  have rt: "ReadThrough < 2" by (simp add: ReadThrough_def)
  have wt: "WriteThrough < 3" and wa: "WriteAround < 3" and wb: "WriteBack < 3"
    by (simp_all add: WriteThrough_def WriteAround_def WriteBack_def)
  have T: "NewMultiLevelCache ReadThrough WriteThrough 100
             [mockCacher 0 0, mockCacher 1 0, mockCacher 2 0] =
           testCacher ReadThrough WriteThrough 100"
    by (simp add: testCacher_def)
  have F0: "NewMultiLevelCache ReadThrough WriteThrough 100
             [failingCacher ''disk full'', failingCacher ''disk full'', failingCacher ''disk full''] =
           allLevelsFailing"
    by (simp add: allLevelsFailing_def)
  have R1: "NewMultiLevelCache ReadThrough WriteThrough 100
             [mockCacher 0 0, refusingCacher, mockCacher 2 0] =
           withRefusingLevel 1 ReadThrough WriteThrough"
    by (simp add: withRefusingLevel_def)
  have R2: "NewMultiLevelCache ReadThrough WriteAround 100
             [mockCacher 0 0, mockCacher 1 0, refusingCacher] =
           withRefusingLevel 2 ReadThrough WriteAround"
    by (simp add: withRefusingLevel_def)
  have R0: "NewMultiLevelCache ReadThrough WriteBack 100
             [refusingCacher, mockCacher 1 0, mockCacher 2 0] =
           withRefusingLevel 0 ReadThrough WriteBack"
    by (simp add: withRefusingLevel_def)
  note t = three_levels(2-4) [OF rt wt, where a = "mockCacher 0 0" and b = "mockCacher 1 0"
      and c = "mockCacher 2 0" and mvs = 100, unfolded T]
  note f0 = three_levels(2-4) [OF rt wt,
      where a = "failingCacher ''disk full'' :: mockWorld Cacher"
      and b = "failingCacher ''disk full''" and c = "failingCacher ''disk full''" and mvs = 100,
      unfolded F0]
  note r1 = three_levels(2-4) [OF rt wt, where a = "mockCacher 0 0" and b = refusingCacher
      and c = "mockCacher 2 0" and mvs = 100, unfolded R1]
  note r2 = three_levels(2-4) [OF rt wa, where a = "mockCacher 0 0" and b = "mockCacher 1 0"
      and c = refusingCacher and mvs = 100, unfolded R2]
  note r0 = three_levels(2-4) [OF rt wb, where a = refusingCacher and b = "mockCacher 1 0"
      and c = "mockCacher 2 0" and mvs = 100, unfolded R0]
  have tc: "NewMultiLevelCache ReadThrough WriteThrough 100
             [mockCacher 0 0, mockCacher 1 0, mockCacher 2 0] =
           (Some (the (fst (testCacher ReadThrough WriteThrough 100))), None)"
    using three_levels(1) [OF rt wt] by (simp only: T [symmetric])
  have f0c: "NewMultiLevelCache ReadThrough WriteThrough 100
             [failingCacher ''disk full'', failingCacher ''disk full'', failingCacher ''disk full''] =
           (Some (the (fst allLevelsFailing)), None)"
    using three_levels(1) [OF rt wt] by (simp only: F0 [symmetric])
  have r1c: "NewMultiLevelCache ReadThrough WriteThrough 100
             [mockCacher 0 0, refusingCacher, mockCacher 2 0] =
           (Some (the (fst (withRefusingLevel 1 ReadThrough WriteThrough))), None)"
    using three_levels(1) [OF rt wt] by (simp only: R1 [symmetric])
  have r2c: "NewMultiLevelCache ReadThrough WriteAround 100
             [mockCacher 0 0, mockCacher 1 0, refusingCacher] =
           (Some (the (fst (withRefusingLevel 2 ReadThrough WriteAround))), None)"
    using three_levels(1) [OF rt wa] by (simp only: R2 [symmetric])
  have r0c: "NewMultiLevelCache ReadThrough WriteBack 100
             [refusingCacher, mockCacher 1 0, mockCacher 2 0] =
           (Some (the (fst (withRefusingLevel 0 ReadThrough WriteBack))), None)"
    using three_levels(1) [OF rt wb] by (simp only: R0 [symmetric])
  have tb: "withinSizeBound (the (fst (testCacher ReadThrough WriteThrough 100))) ?v"
    using t(3) by (simp add: withinSizeBound_def)
  have f0b: "withinSizeBound (the (fst allLevelsFailing)) ?v"
    using f0(3) by (simp add: withinSizeBound_def)
  have r1b: "withinSizeBound (the (fst (withRefusingLevel 1 ReadThrough WriteThrough))) ?v"
    using r1(3) by (simp add: withinSizeBound_def)
  have r2b: "withinSizeBound (the (fst (withRefusingLevel 2 ReadThrough WriteAround))) ?v"
    using r2(3) by (simp add: withinSizeBound_def)
  have r0b: "withinSizeBound (the (fst (withRefusingLevel 0 ReadThrough WriteBack))) ?v"
    using r0(3) by (simp add: withinSizeBound_def)
  have A: "errs_Build None PutError = Panic \<and>
     (\<exists>r s'. cacher_Put (the (fst (testCacher ReadThrough WriteThrough 100)))
              (Some ?k) ?v 5 emptyMocks = Some (Return r, s')) \<and>
     (\<exists>r s'. cacher_Del (the (fst (testCacher ReadThrough WriteThrough 100)))
              (Some ?k) emptyMocks = Some (Return r, s')) \<and>
     cacher_IsPresent (the (fst (testCacher ReadThrough WriteThrough 100))) (Some ?k) emptyMocks =
       Some (Panic, \<lparr>world = [[], [], []], calls = [(0, IsPresentCall ?k)], spawned = []\<rparr>)"
    using failure_status_with_nil_error [OF tc tb, of ?k 5 emptyMocks]
    by (simp add: t(1) silentFailure_def mock_eval)
  have B: "\<exists>r s'. cacher_IsPresent (the (fst allLevelsFailing))
              (Some ?k) emptyMocks = Some (Return r, s')"
    using failure_status_with_nil_error [OF f0c f0b, of ?k 5 emptyMocks]
    by (simp add: f0(1) refusing_eval mock_eval)
  have C: "cacher_Put (the (fst (withRefusingLevel 1 ReadThrough WriteThrough)))
       (Some ?k) ?v 5 emptyMocks =
     Some (Panic,
           \<lparr>world = [[(''metamorphosis'', Some ''franzkafka'')], [], []],
            calls = [(0, PutCall ?k ?v 5), (1, PutCall ?k ?v 5)], spawned = []\<rparr>) \<and>
     cacher_Del (the (fst (withRefusingLevel 1 ReadThrough WriteThrough)))
       (Some (CacheKey ''cosmos'')) cosmosAtLevel3 =
     Some (Panic,
           \<lparr>world = [[], [], []],
            calls = [(2, DelCall (CacheKey ''cosmos'')), (1, DelCall (CacheKey ''cosmos''))],
            spawned = []\<rparr>)"
    using failure_status_with_nil_error [OF r1c r1b, of ?k 5 emptyMocks]
      failure_status_with_nil_error [OF r1c r1b, of "CacheKey ''cosmos''" 5 cosmosAtLevel3]
    by (simp add: r1(1,2) [unfolded One_nat_def] All_less_Suc numeral_3_eq_3 refusing_eval mock_eval)
  have D: "cacher_Put (the (fst (withRefusingLevel 2 ReadThrough WriteAround)))
       (Some ?k) ?v 5 emptyMocks =
     Some (Panic, \<lparr>world = [[], [], []], calls = [(2, PutCall ?k ?v 5)], spawned = []\<rparr>)"
    using failure_status_with_nil_error [OF r2c r2b, of ?k 5 emptyMocks]
    by (simp add: r2(1,2) refusing_eval mock_eval)
  have E: "cacher_Put (the (fst (withRefusingLevel 0 ReadThrough WriteBack)))
       (Some ?k) ?v 5 emptyMocks =
     Some (Panic, \<lparr>world = [[], [], []], calls = [(0, PutCall ?k ?v 5)], spawned = []\<rparr>)"
    using failure_status_with_nil_error [OF r0c r0b, of ?k 5 emptyMocks]
    by (simp add: r0(1,2) refusing_eval mock_eval)
  from A B C D E show ?thesis by blast
qed

end
